theory Spec2Isabelle
  imports Complex_Main
begin

section \<open>Characters\<close>

text \<open>
  A Python \<^verbatim>\<open>str\<close> is a sequence of code points. The model uses \<^typ>\<open>string\<close>, whose
  characters are the code points 0 to 255 (Latin-1), and gives each character class the
  members Python gives it in that range: \<^verbatim>\<open>str.isspace\<close> and the regex class
  \<^verbatim>\<open>\s\<close>, \<^verbatim>\<open>\d\<close>, \<^verbatim>\<open>\w\<close>, \<^verbatim>\<open>str.isalpha\<close> and
  \<^verbatim>\<open>str.lower\<close>. Code points above 255 are outside the model.
\<close>

definition code :: "char \<Rightarrow> nat" where
  "code c = of_char c"

definition in_range :: "nat \<Rightarrow> nat \<Rightarrow> char \<Rightarrow> bool" where
  "in_range lo hi c = (lo \<le> code c \<and> code c \<le> hi)"

definition is_ascii_lower :: "char \<Rightarrow> bool" where
  "is_ascii_lower c = in_range 97 122 c"

definition is_ascii_upper :: "char \<Rightarrow> bool" where
  "is_ascii_upper c = in_range 65 90 c"

definition is_ascii_letter :: "char \<Rightarrow> bool" where
  "is_ascii_letter c = (is_ascii_lower c \<or> is_ascii_upper c)"

definition is_ascii_digit :: "char \<Rightarrow> bool" where
  "is_ascii_digit c = in_range 48 57 c"

definition is_space :: "char \<Rightarrow> bool" where
  \<comment> \<open>\<^verbatim>\<open>str.isspace\<close> and \<^verbatim>\<open>\s\<close>: tab to carriage return, the separators
      28 to 31, space, NEL (133) and the no-break space (160)\<close>
  "is_space c = (in_range 9 13 c \<or> in_range 28 32 c \<or> code c = 133 \<or> code c = 160)"

definition is_alpha :: "char \<Rightarrow> bool" where
  \<comment> \<open>the letters of Latin-1, as \<^verbatim>\<open>str.isalpha\<close> has them\<close>
  "is_alpha c = (is_ascii_letter c \<or> code c = 170 \<or> code c = 181 \<or> code c = 186
     \<or> in_range 192 214 c \<or> in_range 216 246 c \<or> in_range 248 255 c)"

definition is_word :: "char \<Rightarrow> bool" where
  \<comment> \<open>\<^verbatim>\<open>\w\<close>: alphanumeric (letters, digits, the superscripts and fractions of
      Latin-1) or underscore\<close>
  "is_word c = (is_alpha c \<or> is_ascii_digit c \<or> c = CHR ''_''
     \<or> code c = 178 \<or> code c = 179 \<or> code c = 185 \<or> in_range 188 190 c)"

definition lower_char :: "char \<Rightarrow> char" where
  \<comment> \<open>\<^verbatim>\<open>str.lower\<close> on one character: A-Z and the capital letters 192 to 222
      (but not the multiplication sign 215) move up by 32\<close>
  "lower_char c =
     (if is_ascii_upper c \<or> in_range 192 214 c \<or> in_range 216 222 c
      then char_of (code c + 32) else c)"

definition lower :: "string \<Rightarrow> string" where
  "lower s = map lower_char s"

definition isalpha :: "string \<Rightarrow> bool" where
  \<comment> \<open>\<^verbatim>\<open>str.isalpha\<close>: at least one character, and all of them letters\<close>
  "isalpha s = (s \<noteq> [] \<and> list_all is_alpha s)"

definition strip :: "string \<Rightarrow> string" where
  "strip s = rev (dropWhile is_space (rev (dropWhile is_space s)))"

fun split_acc :: "string \<Rightarrow> string \<Rightarrow> string list" where
  "split_acc cur [] = (if cur = [] then [] else [rev cur])"
| "split_acc cur (c # cs) =
     (if is_space c then (if cur = [] then split_acc [] cs else rev cur # split_acc [] cs)
      else split_acc (c # cur) cs)"

definition split :: "string \<Rightarrow> string list" where
  \<comment> \<open>\<^verbatim>\<open>str.split()\<close> without arguments: the maximal runs of non-whitespace\<close>
  "split s = split_acc [] s"

fun join :: "string \<Rightarrow> string list \<Rightarrow> string" where
  "join sep [] = []"
| "join sep [w] = w"
| "join sep (w # ws) = w @ sep @ join sep ws"

section \<open>Regular expressions\<close>

text \<open>
  The patterns of the program use character classes, literals, bounded and unbounded
  greedy repetition of a class, an optional group, one capturing group and the
  word-boundary assertion. \<open>rx_match\<close> is the backtracking matcher of Python's
  \<^verbatim>\<open>re\<close>: it returns every way to match at the current position, in the order in
  which backtracking tries them, so that the head of the list is the match Python reports.
  A matcher state is the text to the left of the position (reversed), the text to the
  right, and the content of capturing group 1 when it has taken part.
\<close>

datatype rx =
    Cls "char \<Rightarrow> bool"
  | Lit string
  | Rep "char \<Rightarrow> bool" nat "nat option"
  | Opt rx
  | Grp rx
  | Cat rx rx
  | WordB

type_synonym mstate = "string \<times> string \<times> string option"

definition at_boundary :: "string \<Rightarrow> string \<Rightarrow> bool" where
  "at_boundary l r =
     ((case l of [] \<Rightarrow> False | c # _ \<Rightarrow> is_word c) \<noteq> (case r of [] \<Rightarrow> False | c # _ \<Rightarrow> is_word c))"

definition advance :: "nat \<Rightarrow> mstate \<Rightarrow> mstate" where
  "advance j s = (case s of (l, r, g) \<Rightarrow> (rev (take j r) @ l, drop j r, g))"

fun rx_match :: "rx \<Rightarrow> mstate \<Rightarrow> mstate list" where
  "rx_match (Cls p) (l, r, g) =
     (case r of [] \<Rightarrow> [] | c # cs \<Rightarrow> if p c then [(c # l, cs, g)] else [])"
| "rx_match (Lit s) (l, r, g) =
     (if take (length s) r = s then [advance (length s) (l, r, g)] else [])"
| "rx_match (Rep p lo hi) (l, r, g) =
     (let k = length (takeWhile p r);
          k' = (case hi of None \<Rightarrow> k | Some h \<Rightarrow> min h k)
      in map (\<lambda>j. advance j (l, r, g)) (rev [lo ..< Suc k']))"
| "rx_match (Opt e) s = rx_match e s @ [s]"
| "rx_match (Grp e) (l, r, g) =
     map (\<lambda>(l', r', g'). (l', r', Some (rev (take (length l' - length l) l'))))
       (rx_match e (l, r, g))"
| "rx_match (Cat a b) s = concat (map (rx_match b) (rx_match a s))"
| "rx_match WordB (l, r, g) = (if at_boundary l r then [(l, r, g)] else [])"

fun ngroups :: "rx \<Rightarrow> nat" where
  "ngroups (Opt e) = ngroups e"
| "ngroups (Grp e) = Suc (ngroups e)"
| "ngroups (Cat a b) = ngroups a + ngroups b"
| "ngroups _ = 0"

definition matched :: "string \<Rightarrow> string \<Rightarrow> string" where
  \<comment> \<open>the text between a start position and a later one, from their left contexts\<close>
  "matched l l' = rev (take (length l' - length l) l')"

fun search_from :: "rx \<Rightarrow> string \<Rightarrow> string \<Rightarrow> (string \<times> mstate) option" where
  "search_from e l [] =
     (case rx_match e (l, [], None) of [] \<Rightarrow> None | s # _ \<Rightarrow> Some (l, s))"
| "search_from e l (c # cs) =
     (case rx_match e (l, c # cs, None) of
        [] \<Rightarrow> search_from e (c # l) cs
      | s # _ \<Rightarrow> Some (l, s))"

definition search :: "rx \<Rightarrow> string \<Rightarrow> bool" where
  \<comment> \<open>the truth value of \<^verbatim>\<open>re.search(pattern, text)\<close>\<close>
  "search e text = (search_from e [] text \<noteq> None)"

text \<open>
  \<^verbatim>\<open>re.findall\<close> scans from left to right for non-overlapping matches. After a match
  the scan goes on where the match ended; after an empty match it moves on by one
  character. Each item is the whole match and the content of group 1.
\<close>

function findall_from :: "rx \<Rightarrow> string \<Rightarrow> string \<Rightarrow> (string \<times> string option) list" where
  "findall_from e l [] =
     (case rx_match e (l, [], None) of
        [] \<Rightarrow> []
      | (l', r', g) # _ \<Rightarrow> [(matched l l', g)])"
| "findall_from e l (c # cs) =
     (case rx_match e (l, c # cs, None) of
        [] \<Rightarrow> findall_from e (c # l) cs
      | (l', r', g) # _ \<Rightarrow>
          (matched l l', g) #
            (if length r' < length (c # cs) then findall_from e l' r'
             else findall_from e (c # l) cs))"
  by pat_completeness auto
termination
  by (relation "measure (\<lambda>(e, l, r). length r)") auto

definition findall :: "rx \<Rightarrow> string \<Rightarrow> string list" where
  \<comment> \<open>a pattern without a group yields the matches; a pattern with one group yields the
      content of the group, the empty string where the group took no part\<close>
  "findall e text =
     map (\<lambda>(m, g). if ngroups e = 0 then m else (case g of None \<Rightarrow> [] | Some s \<Rightarrow> s))
       (findall_from e [] text)"

text \<open>
  \<^verbatim>\<open>re.sub\<close> with a constant replacement: every match is replaced, the text between
  matches is kept.
\<close>

function sub_from :: "rx \<Rightarrow> string \<Rightarrow> string \<Rightarrow> string \<Rightarrow> string" where
  "sub_from e repl l [] =
     (case rx_match e (l, [], None) of [] \<Rightarrow> [] | _ # _ \<Rightarrow> repl)"
| "sub_from e repl l (c # cs) =
     (case rx_match e (l, c # cs, None) of
        [] \<Rightarrow> c # sub_from e repl (c # l) cs
      | (l', r', g) # _ \<Rightarrow>
          (if length r' < length (c # cs) then repl @ sub_from e repl l' r'
           else repl @ c # sub_from e repl (c # l) cs))"
  by pat_completeness auto
termination
  by (relation "measure (\<lambda>(e, repl, l, r). length r)") auto

definition sub :: "rx \<Rightarrow> string \<Rightarrow> string \<Rightarrow> string" where
  "sub e repl text = sub_from e repl [] text"

section \<open>Dictionaries and counters\<close>

text \<open>
  A Python \<^verbatim>\<open>dict\<close> keeps its keys in the order of their first insertion, and the
  results of the program are read in that order, so a dictionary is an association list
  with distinct keys. \<open>dict_set\<close> is the assignment \<^verbatim>\<open>d[k] = v\<close>.
\<close>

fun dict_set :: "('k \<times> 'v) list \<Rightarrow> 'k \<Rightarrow> 'v \<Rightarrow> ('k \<times> 'v) list" where
  "dict_set [] k v = [(k, v)]"
| "dict_set ((k', v') # d) k v =
     (if k' = k then (k', v) # d else (k', v') # dict_set d k v)"

definition dict_of :: "('k \<times> 'v) list \<Rightarrow> ('k \<times> 'v) list" where
  \<comment> \<open>\<^verbatim>\<open>dict(pairs)\<close>\<close>
  "dict_of pairs = foldl (\<lambda>d (k, v). dict_set d k v) [] pairs"

definition counter_add :: "('k \<times> nat) list \<Rightarrow> 'k \<Rightarrow> ('k \<times> nat) list" where
  "counter_add d w = dict_set d w (case map_of d w of None \<Rightarrow> 1 | Some n \<Rightarrow> n + 1)"

definition Counter :: "'k list \<Rightarrow> ('k \<times> nat) list" where
  \<comment> \<open>\<^verbatim>\<open>Counter(iterable)\<close>: one entry per distinct element, in the order of first
      occurrence, with the number of occurrences\<close>
  "Counter ws = foldl counter_add [] ws"

definition most_common :: "int \<Rightarrow> ('k \<times> nat) list \<Rightarrow> ('k \<times> nat) list" where
  \<comment> \<open>\<^verbatim>\<open>Counter.most_common(n)\<close> is \<^verbatim>\<open>heapq.nlargest(n, items, key=count)\<close>, that
      is the first \<open>n\<close> items of the stable sort by decreasing count, and no item when
      \<open>n\<close> is not positive\<close>
  "most_common n items = take (nat n) (sort_key (\<lambda>kv. - int (snd kv)) items)"

section \<open>The analyzer\<close>

record analyzer =
  stop_words :: "string set"
  skill_keywords :: "(string \<times> string list) list"

definition basic_stopwords :: "string list" where
  "basic_stopwords =
    [''i'', ''me'', ''my'', ''myself'', ''we'', ''our'', ''ours'', ''ourselves'', ''you'',
     ''your'', ''yours'', ''yourself'', ''yourselves'', ''he'', ''him'', ''his'', ''himself'',
     ''she'', ''her'', ''hers'', ''herself'', ''it'', ''its'', ''itself'', ''they'', ''them'',
     ''their'', ''theirs'', ''themselves'', ''what'', ''which'', ''who'', ''whom'', ''this'',
     ''that'', ''these'', ''those'', ''am'', ''is'', ''are'', ''was'', ''were'', ''be'', ''been'',
     ''being'', ''have'', ''has'', ''had'', ''having'', ''do'', ''does'', ''did'', ''doing'',
     ''a'', ''an'', ''the'', ''and'', ''but'', ''if'', ''or'', ''because'', ''as'', ''until'',
     ''while'', ''of'', ''at'', ''by'', ''for'', ''with'', ''about'', ''against'', ''between'',
     ''into'', ''through'', ''during'', ''before'', ''after'', ''above'', ''below'', ''to'',
     ''from'', ''up'', ''down'', ''in'', ''out'', ''on'', ''off'', ''over'', ''under'', ''again'',
     ''further'', ''then'', ''once'']"

definition skill_table :: "(string \<times> string list) list" where
  "skill_table =
    [(''programming'', [''python'', ''java'', ''javascript'', ''c++'', ''c#'', ''ruby'', ''php'',
        ''swift'', ''kotlin'', ''go'', ''rust'', ''typescript'', ''sql'', ''r'']),
     (''web'', [''html'', ''css'', ''react'', ''angular'', ''vue'', ''nodejs'', ''django'',
        ''flask'', ''fastapi'', ''express'', ''next.js'', ''bootstrap'', ''tailwind'']),
     (''data_science'', [''machine learning'', ''deep learning'', ''nlp'', ''tensorflow'',
        ''pytorch'', ''pandas'', ''numpy'', ''scikit-learn'', ''data analysis'',
        ''statistics'', ''matplotlib'', ''seaborn'', ''tableau'', ''power bi'']),
     (''cloud'', [''aws'', ''azure'', ''gcp'', ''docker'', ''kubernetes'', ''jenkins'',
        ''terraform'', ''ansible'', ''cicd'', ''devops'']),
     (''database'', [''mongodb'', ''postgresql'', ''mysql'', ''redis'', ''elasticsearch'',
        ''oracle'', ''cassandra'', ''dynamodb'']),
     (''soft_skills'', [''leadership'', ''communication'', ''teamwork'', ''problem solving'',
        ''analytical'', ''creative'', ''management'', ''agile'', ''scrum''])]"

definition init :: "string list option \<Rightarrow> analyzer" where
  \<comment> \<open>the argument is the result of \<^verbatim>\<open>stopwords.words('english')\<close>, a library table
      that is not part of the repository; \<open>None\<close> is its \<^verbatim>\<open>LookupError\<close>\<close>
  "init nltk_stopwords =
     \<lparr> stop_words = (case nltk_stopwords of Some ws \<Rightarrow> set ws | None \<Rightarrow> set basic_stopwords),
       skill_keywords = skill_table \<rparr>"

type_synonym tokenizer = "string \<Rightarrow> string list option"

text \<open>
  \<^verbatim>\<open>word_tokenize\<close> is a library function; the functions that call it take it as the
  parameter \<open>word_tokenize\<close>, where \<open>None\<close> is the \<^verbatim>\<open>LookupError\<close> that sends
  the caller to \<^verbatim>\<open>str.split\<close>.
\<close>

type_synonym pdf_file = "string + string list"

definition extract_text_from_pdf :: "pdf_file \<Rightarrow> string" where
  \<comment> \<open>\<open>Inr pages\<close>: the document opens and its pages yield these texts;
      \<open>Inl msg\<close>: reading or parsing raises an exception \<open>e\<close> with \<open>str(e) = msg\<close>\<close>
  "extract_text_from_pdf pdf_file =
     (case pdf_file of
        Inr pages \<Rightarrow> foldl (\<lambda>text page. text @ page) [] pages
      | Inl e \<Rightarrow> ''Error extracting text: '' @ e)"

fun seq :: "rx list \<Rightarrow> rx" where
  "seq [] = Lit []"
| "seq [e] = e"
| "seq (e # es) = Cat e (seq es)"

definition not_allowed :: "char \<Rightarrow> bool" where
  \<comment> \<open>the class \<^verbatim>\<open>[^a-zA-Z0-9\s+#.]\<close>\<close>
  "not_allowed c =
     (\<not> (is_ascii_lower c \<or> is_ascii_upper c \<or> is_ascii_digit c \<or> is_space c
          \<or> c = CHR ''+'' \<or> c = CHR ''#'' \<or> c = CHR ''.''))"

definition clean_text :: "string \<Rightarrow> string" where
  "clean_text text =
     (let text = lower text;
          text = sub (Cls not_allowed) '' '' text;
          text = sub (Rep is_space 1 None) '' '' text
      in strip text)"

definition local_char :: "char \<Rightarrow> bool" where
  \<comment> \<open>\<^verbatim>\<open>[A-Za-z0-9._%+-]\<close>\<close>
  "local_char c = (is_ascii_upper c \<or> is_ascii_lower c \<or> is_ascii_digit c
     \<or> c = CHR ''.'' \<or> c = CHR ''_'' \<or> c = CHR ''%'' \<or> c = CHR ''+'' \<or> c = CHR ''-'')"

definition domain_char :: "char \<Rightarrow> bool" where
  \<comment> \<open>\<^verbatim>\<open>[A-Za-z0-9.-]\<close>\<close>
  "domain_char c = (is_ascii_upper c \<or> is_ascii_lower c \<or> is_ascii_digit c
     \<or> c = CHR ''.'' \<or> c = CHR ''-'')"

definition tld_char :: "char \<Rightarrow> bool" where
  \<comment> \<open>\<^verbatim>\<open>[A-Z|a-z]\<close>: inside a class the bar is a character\<close>
  "tld_char c = (is_ascii_upper c \<or> c = CHR ''|'' \<or> is_ascii_lower c)"

definition email_pattern :: rx where
  "email_pattern =
     seq [WordB, Rep local_char 1 None, Lit ''@'', Rep domain_char 1 None, Lit ''.'',
          Rep tld_char 2 None, WordB]"

definition extract_email :: "string \<Rightarrow> string" where
  "extract_email text =
     (let emails = findall email_pattern text
      in case emails of [] \<Rightarrow> ''Not found'' | e # _ \<Rightarrow> e)"

definition sep_char :: "char \<Rightarrow> bool" where
  \<comment> \<open>\<^verbatim>\<open>[-.\s]\<close>\<close>
  "sep_char c = (c = CHR ''-'' \<or> c = CHR ''.'' \<or> is_space c)"

definition phone_pattern :: rx where
  "phone_pattern =
     seq [Opt (Grp (seq [Opt (Lit ''+''), Rep is_ascii_digit 1 (Some 3), Opt (Cls sep_char)])),
          Opt (Lit ''(''), Rep is_ascii_digit 3 (Some 3), Opt (Lit '')''), Opt (Cls sep_char),
          Rep is_ascii_digit 3 (Some 3), Opt (Cls sep_char), Rep is_ascii_digit 4 (Some 4)]"

definition extract_phone :: "string \<Rightarrow> string" where
  "extract_phone text =
     (let phones = findall phone_pattern text
      in case phones of [] \<Rightarrow> ''Not found'' | p # _ \<Rightarrow> p)"

definition skill_pattern :: "string \<Rightarrow> rx" where
  \<comment> \<open>\<^verbatim>\<open>r'\b' + re.escape(skill) + r'\b'\<close>: the escaped skill matches itself\<close>
  "skill_pattern skill = seq [WordB, Lit skill, WordB]"

definition extract_skills :: "analyzer \<Rightarrow> string \<Rightarrow> (string \<times> string list) list" where
  "extract_skills self text =
     (let text_lower = lower text
      in foldl (\<lambda>found_skills (category, skills).
                  let found = filter (\<lambda>skill. search (skill_pattern skill) text_lower) skills
                  in if found \<noteq> [] then dict_set found_skills category found
                     else found_skills)
           [] (skill_keywords self))"

definition tokens_of :: "tokenizer \<Rightarrow> string \<Rightarrow> string list" where
  \<comment> \<open>\<^verbatim>\<open>try: word_tokenize(s) except LookupError: s.split()\<close>\<close>
  "tokens_of word_tokenize s = (case word_tokenize s of Some ts \<Rightarrow> ts | None \<Rightarrow> split s)"

definition filtered_tokens :: "analyzer \<Rightarrow> tokenizer \<Rightarrow> string \<Rightarrow> string list" where
  "filtered_tokens self word_tokenize text =
     (let cleaned_text = clean_text text;
          tokens = tokens_of word_tokenize cleaned_text
      in filter (\<lambda>word. word \<notin> stop_words self \<and> length word > 2 \<and> isalpha word) tokens)"

definition get_word_frequency ::
  "analyzer \<Rightarrow> tokenizer \<Rightarrow> string \<Rightarrow> int \<Rightarrow> (string \<times> nat) list" where
  "get_word_frequency self word_tokenize text top_n =
     (let word_freq = Counter (filtered_tokens self word_tokenize text)
      in dict_of (most_common top_n word_freq))"

datatype py_error = ZeroDivisionError | LibraryError string

definition wordcloud_text :: "analyzer \<Rightarrow> tokenizer \<Rightarrow> string \<Rightarrow> string" where
  "wordcloud_text self word_tokenize text =
     (let cleaned_text = clean_text text;
          tokens = tokens_of word_tokenize cleaned_text
      in join '' '' (filter (\<lambda>word. word \<notin> stop_words self \<and> length word > 2) tokens))"

definition generate_wordcloud ::
  "analyzer \<Rightarrow> tokenizer \<Rightarrow> (string \<Rightarrow> py_error + 'img) \<Rightarrow> string \<Rightarrow> py_error + 'img" where
  \<comment> \<open>\<open>render\<close> stands for the word-cloud and plotting libraries, from the filtered
      text to the image buffer; the libraries may raise, and nothing here catches it\<close>
  "generate_wordcloud self word_tokenize render text =
     render (wordcloud_text self word_tokenize text)"

definition token_sets :: "tokenizer \<Rightarrow> string \<Rightarrow> string \<Rightarrow> string set \<times> string set" where
  \<comment> \<open>both calls of \<^verbatim>\<open>word_tokenize\<close> are in one \<^verbatim>\<open>try\<close>: a
      \<^verbatim>\<open>LookupError\<close> in either sends both texts to \<^verbatim>\<open>str.split\<close>\<close>
  "token_sets word_tokenize resume_clean job_clean =
     (case (word_tokenize resume_clean, word_tokenize job_clean) of
        (Some rs, Some js) \<Rightarrow> (set rs, set js)
      | _ \<Rightarrow> (set (split resume_clean), set (split job_clean)))"

definition significant :: "analyzer \<Rightarrow> string set \<Rightarrow> string set" where
  \<comment> \<open>\<^verbatim>\<open>{w for w in tokens if w not in self.stop_words and len(w) > 2}\<close>\<close>
  "significant self tokens = Set.filter (\<lambda>w. w \<notin> stop_words self \<and> length w > 2) tokens"

definition resume_tokens :: "analyzer \<Rightarrow> tokenizer \<Rightarrow> string \<Rightarrow> string \<Rightarrow> string set" where
  "resume_tokens self word_tokenize resume_text job_description =
     significant self
       (fst (token_sets word_tokenize (clean_text resume_text) (clean_text job_description)))"

definition job_tokens :: "analyzer \<Rightarrow> tokenizer \<Rightarrow> string \<Rightarrow> string \<Rightarrow> string set" where
  "job_tokens self word_tokenize resume_text job_description =
     significant self
       (snd (token_sets word_tokenize (clean_text resume_text) (clean_text job_description)))"

definition truediv :: "nat \<Rightarrow> nat \<Rightarrow> py_error + real" where
  \<comment> \<open>\<^verbatim>\<open>a / b\<close> on two lengths; the quotient is a Python float, and the model
      computes it exactly\<close>
  "truediv a b = (if b = 0 then Inl ZeroDivisionError else Inr (real a / real b))"

definition calculate_job_match ::
  "analyzer \<Rightarrow> tokenizer \<Rightarrow> string \<Rightarrow> string \<Rightarrow> py_error + (real \<times> string set \<times> string set)" where
  "calculate_job_match self word_tokenize resume_text job_description =
     (let resume_tokens = resume_tokens self word_tokenize resume_text job_description;
          job_tokens = job_tokens self word_tokenize resume_text job_description
      in if job_tokens = {} then Inr (0, {}, {})
         else
           let matching_keywords = resume_tokens \<inter> job_tokens;
               missing_keywords = job_tokens - resume_tokens
           in case truediv (card matching_keywords) (card job_tokens) of
                Inl err \<Rightarrow> Inl err
              | Inr q \<Rightarrow> Inr (q * 100, matching_keywords, missing_keywords))"

record job_match_data =
  percentage :: real
  matching_keywords :: "string set"
  missing_keywords :: "string set"

record 'img analysis =
  result_text :: string
  email :: string
  phone :: string
  skills :: "(string \<times> string list) list"
  word_frequency :: "(string \<times> nat) list"
  wordcloud :: 'img
  job_match :: "job_match_data option"

definition job_match_of ::
  "analyzer \<Rightarrow> tokenizer \<Rightarrow> string \<Rightarrow> string option \<Rightarrow> py_error + job_match_data option" where
  \<comment> \<open>\<^verbatim>\<open>if job_description:\<close> holds for a string that is given and not empty\<close>
  "job_match_of self word_tokenize text job_description =
     (case job_description of
        None \<Rightarrow> Inr None
      | Some jd \<Rightarrow>
          if jd = [] then Inr None
          else
            (case calculate_job_match self word_tokenize text jd of
               Inl err \<Rightarrow> Inl err
             | Inr (match_pct, matching, missing) \<Rightarrow>
                 Inr (Some \<lparr> percentage = match_pct, matching_keywords = matching,
                             missing_keywords = missing \<rparr>)))"

definition analyze_resume ::
  "analyzer \<Rightarrow> tokenizer \<Rightarrow> (string \<Rightarrow> py_error + 'img) \<Rightarrow> pdf_file \<Rightarrow> string option
     \<Rightarrow> py_error + 'img analysis" where
  \<comment> \<open>the key \<^verbatim>\<open>'text'\<close> of the result is the field \<open>result_text\<close>\<close>
  "analyze_resume self word_tokenize render pdf_file job_description =
     (let text = extract_text_from_pdf pdf_file;
          email = extract_email text;
          phone = extract_phone text;
          skills = extract_skills self text;
          word_freq = get_word_frequency self word_tokenize text 20
      in case generate_wordcloud self word_tokenize render text of
           Inl err \<Rightarrow> Inl err
         | Inr wordcloud_img \<Rightarrow>
             (case job_match_of self word_tokenize text job_description of
                Inl err \<Rightarrow> Inl err
              | Inr job_match_data \<Rightarrow>
                  Inr \<lparr> result_text = text, email = email, phone = phone, skills = skills,
                        word_frequency = word_freq, wordcloud = wordcloud_img,
                        job_match = job_match_data \<rparr>))"

section \<open>The word-cloud library\<close>

text \<open>
  \<^verbatim>\<open>WordCloud(...).generate(text)\<close> and the plotting calls behind it belong to
  third-party libraries, not to the repository. The model keeps what decides whether the
  call returns: the library takes the words of the text with the pattern
  \<^verbatim>\<open>\w[\w']*\<close>, removes a final \<^verbatim>\<open>'s\<close>, drops the words that are numbers and
  the words of its own stop-word list, and raises \<^verbatim>\<open>ValueError\<close> when no word is
  left. The library's stop-word list is the parameter \<open>stopwords\<close>, and \<open>draw\<close> stands
  for the drawing of the image from a text that has words.
\<close>

definition word_pattern :: rx where
  "word_pattern = Cat (Cls is_word) (Rep (\<lambda>c. is_word c \<or> c = CHR 0x27) 0 None)"

definition isdigit :: "string \<Rightarrow> bool" where
  "isdigit s = (s \<noteq> [] \<and> list_all (\<lambda>c. is_ascii_digit c \<or> code c = 178 \<or> code c = 179
     \<or> code c = 185) s)"

definition drop_possessive :: "string \<Rightarrow> string" where
  "drop_possessive word =
     (if 2 \<le> length word \<and> drop (length word - 2) (lower word) = [CHR 0x27, CHR ''s'']
      then take (length word - 2) word else word)"

definition cloud_words :: "string set \<Rightarrow> string \<Rightarrow> string list" where
  "cloud_words stopwords text =
     (let words = findall word_pattern text;
          words = map drop_possessive words;
          words = filter (\<lambda>word. \<not> isdigit word) words
      in filter (\<lambda>word. lower word \<notin> stopwords) words)"

definition wordcloud_library :: "string set \<Rightarrow> (string \<Rightarrow> 'img) \<Rightarrow> string \<Rightarrow> py_error + 'img" where
  "wordcloud_library stopwords draw text =
     (if cloud_words stopwords text = []
      then Inl (LibraryError ''We need at least 1 word to plot a word cloud, got 0.'')
      else Inr (draw text))"

section \<open>Notions used to state the properties\<close>

text \<open>
  The character set that the specification gives for normalized text: lowercase letters,
  digits, plus, hash, full stop and the space.
\<close>

definition out_char :: "char \<Rightarrow> bool" where
  "out_char c = (is_ascii_lower c \<or> is_ascii_digit c \<or> c = CHR ''+'' \<or> c = CHR ''#''
     \<or> c = CHR ''.'' \<or> c = CHR '' '')"

text \<open>
  \<open>collapse\<close> replaces each maximal run of whitespace by one space. The substitution
  of the pattern \<^verbatim>\<open>\s+\<close> is proved equal to it (lemma \<open>sub_ws\<close>), and the proofs
  about the normalizer go through it.
\<close>

function collapse :: "string \<Rightarrow> string" where
  "collapse [] = []"
| "collapse (c # cs) =
     (if is_space c then CHR '' '' # collapse (dropWhile is_space cs) else c # collapse cs)"
  by pat_completeness auto
termination
  by (relation "measure length") (auto simp: length_dropWhile_le less_Suc_eq_le)

text \<open>
  A text is normalized when it has only characters of the set above, no two adjacent
  whitespace characters, and no whitespace at either end.
\<close>

definition normalized :: "string \<Rightarrow> bool" where
  "normalized t = (list_all out_char t
     \<and> successively (\<lambda>a b. \<not> (is_space a \<and> is_space b)) t
     \<and> (t = [] \<or> (\<not> is_space (hd t) \<and> \<not> is_space (last t))))"

text \<open>
  The position at which an element occurs first in a list (the length of the list for an
  element that does not occur).
\<close>

definition first_index :: "'a list \<Rightarrow> 'a \<Rightarrow> nat" where
  "first_index ws w = length (takeWhile (\<lambda>x. x \<noteq> w) ws)"

text \<open>
  The language of a pattern, stated without reference to the matcher: \<open>lang e l m r\<close>
  holds when the text \<open>m\<close> matches \<open>e\<close> between the left context \<open>l\<close> (reversed)
  and the right context \<open>r\<close>. The matcher is proved sound and complete for it.
\<close>

fun lang :: "rx \<Rightarrow> string \<Rightarrow> string \<Rightarrow> string \<Rightarrow> bool" where
  "lang (Cls p) l m r = (\<exists>c. m = [c] \<and> p c)"
| "lang (Lit s) l m r = (m = s)"
| "lang (Rep p lo hi) l m r =
     (list_all p m \<and> lo \<le> length m \<and> (case hi of None \<Rightarrow> True | Some h \<Rightarrow> length m \<le> h))"
| "lang (Opt e) l m r = (m = [] \<or> lang e l m r)"
| "lang (Grp e) l m r = lang e l m r"
| "lang (Cat a b) l m r =
     (\<exists>m1 m2. m = m1 @ m2 \<and> lang a l m1 (m2 @ r) \<and> lang b (rev m1 @ l) m2 r)"
| "lang WordB l m r = (m = [] \<and> at_boundary l r)"

text \<open>
  The shape of an email address in the words of the specification: a local part of one or
  more letters, digits or \<^verbatim>\<open>._%+-\<close>, an at sign, a domain of one or more letters,
  digits or \<^verbatim>\<open>.-\<close>, a full stop, and two or more letters. \<open>email_at pre m post\<close>
  says that \<open>m\<close> has this shape and stands between word boundaries in \<open>pre @ m @ post\<close>.
\<close>

definition spec_email :: "string \<Rightarrow> bool" where
  "spec_email m =
     (\<exists>loc dom tld. m = loc @ ''@'' @ dom @ ''.'' @ tld
        \<and> loc \<noteq> [] \<and> list_all local_char loc
        \<and> dom \<noteq> [] \<and> list_all domain_char dom
        \<and> 2 \<le> length tld \<and> list_all is_ascii_letter tld)"

definition email_at :: "string \<Rightarrow> string \<Rightarrow> string \<Rightarrow> bool" where
  "email_at pre m post =
     (spec_email m \<and> at_boundary (rev pre) (m @ post) \<and> at_boundary (rev (pre @ m)) post)"

section \<open>The job matcher\<close>

lemma finite_token_sets:
  "finite (fst (token_sets wt r j))" "finite (snd (token_sets wt r j))"
  by (auto simp: token_sets_def split: option.splits)

lemma finite_significant: "finite ts \<Longrightarrow> finite (significant self ts)"
  by (simp add: significant_def)

lemma finite_job_tokens: "finite (job_tokens self wt r j)"
  by (simp add: job_tokens_def finite_significant finite_token_sets)

lemma finite_resume_tokens: "finite (resume_tokens self wt r j)"
  by (simp add: resume_tokens_def finite_significant finite_token_sets)

lemma card_job_tokens_pos: "job_tokens self wt r j \<noteq> {} \<Longrightarrow> 0 < card (job_tokens self wt r j)"
  by (simp add: card_gt_0_iff finite_job_tokens)

lemma calculate_job_match_empty:
  "job_tokens self wt r j = {} \<Longrightarrow> calculate_job_match self wt r j = Inr (0, {}, {})"
  by (simp add: calculate_job_match_def)

lemma calculate_job_match_nonempty:
  assumes "job_tokens self wt r j \<noteq> {}"
  shows "calculate_job_match self wt r j =
    Inr (real (card (resume_tokens self wt r j \<inter> job_tokens self wt r j))
           / real (card (job_tokens self wt r j)) * 100,
         resume_tokens self wt r j \<inter> job_tokens self wt r j,
         job_tokens self wt r j - resume_tokens self wt r j)"
  using assms card_job_tokens_pos [OF assms]
  by (simp add: calculate_job_match_def truediv_def Let_def)

lemma card_matching_le:
  "card (resume_tokens self wt r j \<inter> job_tokens self wt r j) \<le> card (job_tokens self wt r j)"
  by (rule card_mono) (auto simp: finite_job_tokens)

text \<open>
  C4. For every resume text and job description, the matching and the missing keywords
  that the job matcher returns partition the significant tokens of the job description
  (those that are no stopword and longer than two characters): their union is that set and
  they have no element in common. The matcher returns a result on every input.
\<close>

theorem job_match_partition:
  "\<exists>pct matching missing.
     calculate_job_match self wt resume_text job_description = Inr (pct, matching, missing)
     \<and> matching \<union> missing = job_tokens self wt resume_text job_description
     \<and> matching \<inter> missing = {}"
proof (cases "job_tokens self wt resume_text job_description = {}")
  case True
  then show ?thesis by (simp add: calculate_job_match_empty)
next
  case False
  show ?thesis
    unfolding calculate_job_match_nonempty [OF False] by auto
qed

text \<open>
  C5. For every resume text and job description the job matcher returns a percentage
  between 0 and 100. The percentage is exactly 100 when the job description has
  significant tokens and each of them is among the significant tokens of the resume. It
  is 0 when the job description has no significant token, where the whole result is
  (0, empty set, empty set) and no exception, and it is 0 when no significant token of
  the job description is one of the resume.
\<close>

theorem job_match_percentage:
  "\<exists>pct matching missing.
     calculate_job_match self wt resume_text job_description = Inr (pct, matching, missing)
     \<and> 0 \<le> pct \<and> pct \<le> 100
     \<and> (job_tokens self wt resume_text job_description \<noteq> {}
          \<and> job_tokens self wt resume_text job_description
              \<subseteq> resume_tokens self wt resume_text job_description
          \<longrightarrow> pct = 100)
     \<and> (job_tokens self wt resume_text job_description = {}
          \<longrightarrow> pct = 0 \<and> matching = {} \<and> missing = {})
     \<and> (resume_tokens self wt resume_text job_description
            \<inter> job_tokens self wt resume_text job_description = {}
          \<longrightarrow> pct = 0)"
proof (cases "job_tokens self wt resume_text job_description = {}")
  case True
  then show ?thesis by (simp add: calculate_job_match_empty)
next
  case False
  let ?J = "job_tokens self wt resume_text job_description"
  let ?R = "resume_tokens self wt resume_text job_description"
  have pos: "0 < real (card ?J)"
    using card_job_tokens_pos [OF False] by simp
  have le: "real (card (?R \<inter> ?J)) \<le> real (card ?J)"
    using card_matching_le [of self wt resume_text job_description] by simp
  have upper: "real (card (?R \<inter> ?J)) / real (card ?J) * 100 \<le> 100"
    using pos le by (simp add: divide_le_eq)
  have lower: "0 \<le> real (card (?R \<inter> ?J)) / real (card ?J) * 100"
    by simp
  have full: "?J \<subseteq> ?R \<Longrightarrow> real (card (?R \<inter> ?J)) / real (card ?J) * 100 = 100"
  proof -
    assume "?J \<subseteq> ?R"
    then have "?R \<inter> ?J = ?J" by auto
    then show ?thesis using pos by simp
  qed
  show ?thesis
    unfolding calculate_job_match_nonempty [OF False]
    using upper lower full False by auto
qed

text \<open>
  C10. When the resume has no significant token (the empty resume, for one) and the job
  description has some, the job matcher returns, with no exception, the percentage 0, no
  matching keyword, and every significant token of the job description as missing: the
  empty resume has no branch of its own.
\<close>

theorem job_match_empty_resume:
  assumes "resume_tokens self wt resume_text job_description = {}"
    and "job_tokens self wt resume_text job_description \<noteq> {}"
  shows "calculate_job_match self wt resume_text job_description =
    Inr (0, {}, job_tokens self wt resume_text job_description)"
  unfolding calculate_job_match_nonempty [OF assms(2)] using assms(1) by simp

section \<open>Characters and patterns: basic facts\<close>

lemma code_literals [simp]:
  "code CHR ''+'' = 43" "code CHR ''#'' = 35" "code CHR ''.'' = 46" "code CHR '' '' = 32"
  "code CHR ''_'' = 95" "code CHR ''|'' = 124" "code CHR ''@'' = 64" "code CHR ''-'' = 45"
  "code CHR ''%'' = 37"
  by (simp_all add: code_def)

lemma space_is_space [simp]: "is_space CHR '' ''"
  by (simp add: is_space_def in_range_def)

lemma lower_char_not_upper: "\<not> is_ascii_upper (lower_char c)"
  by (auto simp: lower_char_def is_ascii_upper_def in_range_def code_def)

lemma sub_from_Cls:
  "sub_from (Cls p) repl l r = concat (map (\<lambda>c. if p c then repl else [c]) r)"
  by (induction r arbitrary: l) auto

lemma sub_Cls: "sub (Cls p) repl s = concat (map (\<lambda>c. if p c then repl else [c]) s)"
  by (simp add: sub_def sub_from_Cls)

lemma rev_upt_Suc: "lo \<le> k \<Longrightarrow> rev [lo ..< Suc k] = k # rev [lo ..< k]"
  by simp

lemma rx_match_Rep_None:
  assumes "lo \<le> length (takeWhile p r)"
  shows "rx_match (Rep p lo None) (l, r, g) =
    (rev (takeWhile p r) @ l, dropWhile p r, g)
      # map (\<lambda>j. advance j (l, r, g)) (rev [lo ..< length (takeWhile p r)])"
  using assms
  by (simp add: Let_def rev_upt_Suc advance_def takeWhile_eq_take [symmetric]
      dropWhile_eq_drop [symmetric] del: upt_Suc)

lemma rx_match_Rep_None_fail:
  assumes "length (takeWhile p r) < lo"
  shows "rx_match (Rep p lo None) (l, r, g) = []"
  using assms by (simp add: Let_def)

lemma rx_match_ws_Cons:
  assumes "is_space c"
  shows "\<exists>l' rest. rx_match (Rep is_space (Suc 0) None) (l, c # cs, g)
           = (l', dropWhile is_space cs, g) # rest"
  using assms rx_match_Rep_None [of "Suc 0" is_space "c # cs" l g] by simp

lemma sub_from_ws: "sub_from (Rep is_space 1 None) '' '' l r = collapse r"
proof (induction r arbitrary: l rule: collapse.induct)
  case 1
  show ?case by (simp add: rx_match_Rep_None_fail)
next
  case (2 c cs)
  show ?case
  proof (cases "is_space c")
    case True
    have len: "length (dropWhile is_space cs) < Suc (length cs)"
      by (simp add: length_dropWhile_le less_Suc_eq_le)
    obtain l' rest where m: "rx_match (Rep is_space (Suc 0) None) (l, c # cs, None)
           = (l', dropWhile is_space cs, None) # rest"
      using rx_match_ws_Cons [OF True] by blast
    show ?thesis
      using True len 2(1) [OF True]
      by (simp add: m del: rx_match.simps)
  next
    case False
    then show ?thesis
      using 2(2) [OF False] by (simp add: rx_match_Rep_None_fail del: rx_match.simps)
  qed
qed

lemma sub_ws: "sub (Rep is_space 1 None) '' '' s = collapse s"
  unfolding sub_def by (rule sub_from_ws)

lemma collapse_Nil_iff [simp]: "collapse s = [] \<longleftrightarrow> s = []"
  by (cases s) auto

lemma hd_collapse: "s \<noteq> [] \<Longrightarrow> \<not> is_space (hd s) \<Longrightarrow> hd (collapse s) = hd s"
  by (cases s) auto

lemma list_all_dropWhile: "list_all P xs \<Longrightarrow> list_all P (dropWhile Q xs)"
  by (auto simp: list_all_iff dest: set_dropWhileD)

lemma out_char_space [simp]: "out_char CHR '' ''"
  by (simp add: out_char_def)

lemma collapse_chars:
  "list_all (\<lambda>c. out_char c \<or> is_space c) s \<Longrightarrow> list_all out_char (collapse s)"
  by (induction s rule: collapse.induct) (auto simp: list_all_dropWhile)

lemma collapse_successively:
  "successively (\<lambda>a b. \<not> (is_space a \<and> is_space b)) (collapse s)"
proof (induction s rule: collapse.induct)
  case 1
  show ?case by simp
next
  case (2 c cs)
  show ?case
  proof (cases "is_space c")
    case True
    let ?d = "dropWhile is_space cs"
    have "?d \<noteq> [] \<Longrightarrow> \<not> is_space (hd (collapse ?d))"
      using hd_dropWhile [of is_space cs] by (simp add: hd_collapse)
    then show ?thesis
      using True 2(1) [OF True] by (auto simp: successively_Cons)
  next
    case False
    then show ?thesis
      using 2(2) [OF False] by (auto simp: successively_Cons)
  qed
qed

lemma cleaned_mid_chars:
  "list_all (\<lambda>c. out_char c \<or> is_space c) (sub (Cls not_allowed) '' '' (lower s))"
proof -
  have "out_char (lower_char c) \<or> is_space (lower_char c)" if "\<not> not_allowed (lower_char c)" for c
    using that lower_char_not_upper [of c] by (auto simp: not_allowed_def out_char_def)
  then show ?thesis
    by (auto simp: sub_Cls lower_def list_all_iff)
qed

lemma strip_decomp: "\<exists>pre post. s = pre @ strip s @ post"
proof -
  let ?d = "dropWhile is_space s"
  have "?d = rev (dropWhile is_space (rev ?d)) @ rev (takeWhile is_space (rev ?d))"
    by (metis rev_append rev_rev_ident takeWhile_dropWhile_id)
  then have "?d = strip s @ rev (takeWhile is_space (rev ?d))"
    by (simp add: strip_def)
  then have "s = takeWhile is_space s @ strip s @ rev (takeWhile is_space (rev ?d))"
    by (metis takeWhile_dropWhile_id)
  then show ?thesis by blast
qed

lemma last_dropWhile: "dropWhile P xs \<noteq> [] \<Longrightarrow> last (dropWhile P xs) = last xs"
  by (metis last_appendR takeWhile_dropWhile_id)

lemma strip_ends:
  assumes "strip s \<noteq> []"
  shows "\<not> is_space (hd (strip s))" and "\<not> is_space (last (strip s))"
proof -
  let ?d = "dropWhile is_space s"
  let ?x = "dropWhile is_space (rev ?d)"
  have x: "?x \<noteq> []" using assms by (simp add: strip_def)
  have d: "?d \<noteq> []"
  proof
    assume e: "?d = []"
    have "?x = []" unfolding e by simp
    with x show False by contradiction
  qed
  have "hd (strip s) = last ?x" using x by (simp add: strip_def hd_rev)
  also have "\<dots> = last (rev ?d)" using x by (rule last_dropWhile)
  also have "\<dots> = hd ?d" using d by (simp add: last_rev)
  finally show "\<not> is_space (hd (strip s))"
    using hd_dropWhile [OF d] by simp
  have "last (strip s) = hd ?x" using x by (simp add: strip_def last_rev)
  then show "\<not> is_space (last (strip s))"
    using hd_dropWhile [OF x] by simp
qed

lemma strip_id:
  assumes "s = [] \<or> (\<not> is_space (hd s) \<and> \<not> is_space (last s))"
  shows "strip s = s"
proof (cases "s = []")
  case True
  then show ?thesis by (simp add: strip_def)
next
  case False
  then have a: "dropWhile is_space s = s" using assms by (simp add: dropWhile_eq_self_iff)
  have "dropWhile is_space (rev s) = rev s"
    using False assms by (simp add: dropWhile_eq_self_iff hd_rev)
  then show ?thesis by (simp add: strip_def a)
qed

lemma successively_infix:
  "successively P (pre @ m @ post) \<Longrightarrow> successively P m"
  by (simp add: successively_append_iff)

lemma successively_no_pair:
  assumes "successively P t" and "t = u @ a # b # v"
  shows "P a b"
  using assms by (simp add: successively_append_iff)

section \<open>The text normalizer\<close>

lemma clean_text_collapse:
  "clean_text s = strip (collapse (sub (Cls not_allowed) '' '' (lower s)))"
  unfolding clean_text_def Let_def sub_ws by (rule refl)

lemma normalized_clean_text: "normalized (clean_text s)"
proof -
  let ?c = "collapse (sub (Cls not_allowed) '' '' (lower s))"
  obtain pre post where dec: "?c = pre @ strip ?c @ post"
    using strip_decomp by blast
  have chars: "list_all out_char ?c"
    by (rule collapse_chars) (rule cleaned_mid_chars)
  have "list_all out_char (pre @ strip ?c @ post)"
    using chars dec by simp
  then have 1: "list_all out_char (strip ?c)" by simp
  have "successively (\<lambda>a b. \<not> (is_space a \<and> is_space b)) (pre @ strip ?c @ post)"
    using collapse_successively [of "sub (Cls not_allowed) '' '' (lower s)"] dec by simp
  then have 2: "successively (\<lambda>a b. \<not> (is_space a \<and> is_space b)) (strip ?c)"
    by (rule successively_infix)
  have 3: "strip ?c = [] \<or> (\<not> is_space (hd (strip ?c)) \<and> \<not> is_space (last (strip ?c)))"
    using strip_ends [of ?c] by blast
  show ?thesis
    unfolding normalized_def clean_text_collapse using 1 2 3 by blast
qed

lemma out_char_lower: "out_char c \<Longrightarrow> lower_char c = c"
  by (auto simp: out_char_def lower_char_def is_ascii_lower_def is_ascii_upper_def
      is_ascii_digit_def in_range_def)

lemma out_char_allowed: "out_char c \<Longrightarrow> \<not> not_allowed c"
  by (auto simp: out_char_def not_allowed_def)

lemma out_char_space_eq: "out_char c \<Longrightarrow> is_space c \<Longrightarrow> c = CHR '' ''"
  by (auto simp: out_char_def is_space_def is_ascii_lower_def is_ascii_digit_def in_range_def)

lemma collapse_id:
  "list_all out_char t \<Longrightarrow> successively (\<lambda>a b. \<not> (is_space a \<and> is_space b)) t
     \<Longrightarrow> collapse t = t"
proof (induction t rule: collapse.induct)
  case 1
  show ?case by simp
next
  case (2 c cs)
  show ?case
  proof (cases "is_space c")
    case True
    have c: "c = CHR '' ''" using 2(3) True by (simp add: out_char_space_eq)
    have "cs = [] \<or> \<not> is_space (hd cs)"
      using 2(4) True by (auto simp: successively_Cons)
    then have d: "dropWhile is_space cs = cs" by (simp add: dropWhile_eq_self_iff)
    have "collapse (dropWhile is_space cs) = dropWhile is_space cs"
      using 2(1) [OF True] 2(3) 2(4) d by (auto simp: successively_Cons)
    then show ?thesis using True c d by simp
  next
    case False
    have "collapse cs = cs"
      using 2(2) [OF False] 2(3) 2(4) by (auto simp: successively_Cons)
    then show ?thesis using False by simp
  qed
qed

lemma clean_text_normalized:
  assumes "normalized t"
  shows "clean_text t = t"
proof -
  have chars: "list_all out_char t" using assms by (simp add: normalized_def)
  have l: "lower t = t"
    using chars by (simp add: lower_def list_all_iff map_idI out_char_lower)
  have "sub (Cls not_allowed) '' '' t = concat (map (\<lambda>c. [c]) t)"
    unfolding sub_Cls using chars
    by (intro arg_cong [where f = concat] map_cong) (auto simp: list_all_iff out_char_allowed)
  then have s: "sub (Cls not_allowed) '' '' t = t" by simp
  have c: "collapse t = t"
    using assms by (simp add: normalized_def collapse_id)
  have "strip t = t"
    using assms by (intro strip_id) (auto simp: normalized_def)
  then show ?thesis by (simp add: clean_text_collapse l s c)
qed

text \<open>
  C7. The text normalizer is idempotent: normalizing a normalized text changes nothing.
\<close>

theorem clean_text_idempotent: "clean_text (clean_text s) = clean_text s"
  by (rule clean_text_normalized) (rule normalized_clean_text)

text \<open>
  C8. For every input, the output of the normalizer has only characters of the set
  a-z, 0-9, plus, hash, full stop and space; it has no two consecutive spaces; and it
  neither starts nor ends with a space.
\<close>

theorem clean_text_output:
  "list_all out_char (clean_text s)
   \<and> \<not> (\<exists>u v. clean_text s = u @ ''  '' @ v)
   \<and> \<not> (\<exists>v. clean_text s = CHR '' '' # v)
   \<and> \<not> (\<exists>u. clean_text s = u @ '' '')"
proof -
  have n: "normalized (clean_text s)" by (rule normalized_clean_text)
  have 1: "list_all out_char (clean_text s)" using n by (simp add: normalized_def)
  have 2: "\<not> (\<exists>u v. clean_text s = u @ ''  '' @ v)"
  proof
    assume "\<exists>u v. clean_text s = u @ ''  '' @ v"
    then obtain u v where "clean_text s = u @ CHR '' '' # CHR '' '' # v" by auto
    then have "\<not> (is_space CHR '' '' \<and> is_space CHR '' '')"
      using n successively_no_pair [of "\<lambda>a b. \<not> (is_space a \<and> is_space b)" "clean_text s" u]
      by (simp add: normalized_def)
    then show False by simp
  qed
  have 3: "\<not> (\<exists>v. clean_text s = CHR '' '' # v)"
    using n by (auto simp: normalized_def)
  have 4: "\<not> (\<exists>u. clean_text s = u @ '' '')"
    using n by (auto simp: normalized_def)
  show ?thesis using 1 2 3 4 by blast
qed

section \<open>The frequency analyzer\<close>

lemma keys_dict_set:
  "map fst (dict_set d k v) = (if k \<in> fst ` set d then map fst d else map fst d @ [k])"
  by (induction d) (fastforce simp: image_iff)+

lemma map_of_dict_set: "map_of (dict_set d k v) = (map_of d)(k \<mapsto> v)"
  by (induction d) auto

lemma dict_set_new: "k \<notin> fst ` set d \<Longrightarrow> dict_set d k v = d @ [(k, v)]"
  by (induction d) auto

lemma foldl_dict_set_distinct:
  "distinct (map fst (d @ ps)) \<Longrightarrow> foldl (\<lambda>d (k, v). dict_set d k v) d ps = d @ ps"
proof (induction ps arbitrary: d)
  case Nil
  show ?case by simp
next
  case (Cons p ps)
  obtain k v where p: "p = (k, v)" by (cases p)
  have new: "dict_set d k v = d @ [(k, v)]"
    using Cons.prems p by (intro dict_set_new) auto
  have "distinct (map fst ((d @ [(k, v)]) @ ps))"
    using Cons.prems p by simp
  then have "foldl (\<lambda>d (k, v). dict_set d k v) (d @ [(k, v)]) ps = (d @ [(k, v)]) @ ps"
    by (rule Cons.IH)
  then show ?case using p new by simp
qed

lemma dict_of_distinct: "distinct (map fst ps) \<Longrightarrow> dict_of ps = ps"
  using foldl_dict_set_distinct [of "[]" ps] by (simp add: dict_of_def)

lemma Counter_snoc: "Counter (ws @ [w]) = counter_add (Counter ws) w"
  by (simp add: Counter_def)

lemma keys_counter_add:
  "map fst (counter_add d w) = (if w \<in> fst ` set d then map fst d else map fst d @ [w])"
  by (simp add: counter_add_def keys_dict_set)

lemma keyset_counter_add: "fst ` set (counter_add d w) = insert w (fst ` set d)"
proof -
  have "set (map fst (counter_add d w)) = insert w (fst ` set d)"
    unfolding keys_counter_add by auto
  then show ?thesis by simp
qed

lemma keys_Counter_set: "fst ` set (Counter ws) = set ws"
proof (induction ws rule: rev_induct)
  case Nil
  show ?case by (simp add: Counter_def)
next
  case (snoc w ws)
  then show ?case by (simp add: Counter_snoc keyset_counter_add)
qed

lemma keys_Counter_distinct: "distinct (map fst (Counter ws))"
proof (induction ws rule: rev_induct)
  case Nil
  show ?case by (simp add: Counter_def)
next
  case (snoc w ws)
  then show ?case by (auto simp: Counter_snoc keys_counter_add)
qed

lemma first_index_snoc_old: "x \<in> set ws \<Longrightarrow> first_index (ws @ [w]) x = first_index ws x"
  by (simp add: first_index_def)

lemma first_index_less: "x \<in> set ws \<Longrightarrow> first_index ws x < length ws"
  unfolding first_index_def by (induction ws) auto

lemma first_index_snoc_new:
  assumes "w \<notin> set ws"
  shows "first_index (ws @ [w]) w = length ws"
proof -
  have "takeWhile (\<lambda>x. x \<noteq> w) (ws @ [w]) = ws @ takeWhile (\<lambda>x. x \<noteq> w) [w]"
    by (rule takeWhile_append2) (use assms in auto)
  then show ?thesis by (simp add: first_index_def)
qed

lemma keys_Counter_order:
  "sorted_wrt (\<lambda>a b. first_index ws a < first_index ws b) (map fst (Counter ws))"
proof (induction ws rule: rev_induct)
  case Nil
  show ?case by (simp add: Counter_def)
next
  case (snoc w ws)
  have old: "sorted_wrt (\<lambda>a b. first_index (ws @ [w]) a < first_index (ws @ [w]) b)
      (map fst (Counter ws))"
    using snoc
    by (rule sorted_wrt_mono_rel [rotated]) (simp add: keys_Counter_set first_index_snoc_old)
  show ?case
  proof (cases "w \<in> set ws")
    case True
    then show ?thesis using old by (simp add: Counter_snoc keys_counter_add keys_Counter_set)
  next
    case False
    have "first_index (ws @ [w]) x < first_index (ws @ [w]) w" if "x \<in> set ws" for x
      using that False by (simp add: first_index_snoc_old first_index_snoc_new first_index_less)
    then show ?thesis
      using old False
      by (simp add: Counter_snoc keys_counter_add keys_Counter_set sorted_wrt_append)
  qed
qed

lemma map_of_Counter:
  "map_of (Counter ws) w = (if w \<in> set ws then Some (count_list ws w) else None)"
proof (induction ws rule: rev_induct)
  case Nil
  show ?case by (simp add: Counter_def)
next
  case (snoc x ws)
  then show ?case
    by (auto simp: Counter_snoc counter_add_def map_of_dict_set count_list_0_iff)
qed

lemma Counter_counts: "(w, c) \<in> set (Counter ws) \<Longrightarrow> c = count_list ws w"
proof -
  assume a: "(w, c) \<in> set (Counter ws)"
  then have "map_of (Counter ws) w = Some c"
    using keys_Counter_distinct [of ws] by simp
  then show ?thesis by (simp add: map_of_Counter split: if_splits)
qed

lemma insort_key_stable:
  assumes "sorted_wrt (\<lambda>a b. f a < f b \<or> (f a = f b \<and> R a b)) ys"
    and "\<forall>y\<in>set ys. R x y"
  shows "sorted_wrt (\<lambda>a b. f a < f b \<or> (f a = f b \<and> R a b)) (insort_key f x ys)"
  using assms by (induction ys) (auto simp: set_insort_key)

lemma sort_key_stable_order:
  fixes f :: "'a \<Rightarrow> 'b::linorder"
  assumes "sorted_wrt R xs"
  shows "sorted_wrt (\<lambda>a b. f a < f b \<or> (f a = f b \<and> R a b)) (sort_key f xs)"
  using assms
proof (induction xs)
  case Nil
  show ?case by simp
next
  case (Cons x xs)
  then show ?case by (simp add: insort_key_stable)
qed

lemma distinct_map_insort_key:
  "distinct (map g (insort_key f x ys)) \<longleftrightarrow> g x \<notin> g ` set ys \<and> distinct (map g ys)"
  by (induction ys) (auto simp: set_insort_key)

lemma distinct_map_sort_key: "distinct (map g (sort_key f xs)) \<longleftrightarrow> distinct (map g xs)"
  by (induction xs) (simp_all add: distinct_map_insort_key)

lemma Counter_order:
  "sorted_wrt (\<lambda>a b. first_index ws (fst a) < first_index ws (fst b)) (Counter ws)"
  using keys_Counter_order [of ws] by (simp add: sorted_wrt_map)

lemma most_common_order:
  "sorted_wrt (\<lambda>a b. snd b < snd a
       \<or> (snd a = snd b \<and> first_index ws (fst a) < first_index ws (fst b)))
     (most_common n (Counter ws))"
proof -
  let ?f = "\<lambda>kv :: 'a \<times> nat. - int (snd kv)"
  let ?R = "\<lambda>a b :: 'a \<times> nat. first_index ws (fst a) < first_index ws (fst b)"
  have "sorted_wrt (\<lambda>a b. ?f a < ?f b \<or> (?f a = ?f b \<and> ?R a b)) (sort_key ?f (Counter ws))"
    using Counter_order by (rule sort_key_stable_order)
  then have "sorted_wrt (\<lambda>a b. ?f a < ?f b \<or> (?f a = ?f b \<and> ?R a b))
      (take (nat n) (sort_key ?f (Counter ws)))"
    by (rule sorted_wrt_take)
  then show ?thesis by (simp add: most_common_def)
qed

lemma most_common_length: "length (most_common n items) \<le> nat n"
  by (simp add: most_common_def)

lemma most_common_subset: "set (most_common n items) \<subseteq> set items"
  using set_take_subset [of "nat n" "sort_key (\<lambda>kv. - int (snd kv)) items"]
  by (simp add: most_common_def)

lemma most_common_distinct:
  "distinct (map fst items) \<Longrightarrow> distinct (map fst (most_common n items))"
  by (simp add: most_common_def take_map [symmetric] distinct_map_sort_key)

lemma get_word_frequency_eq:
  "get_word_frequency self wt text top_n
     = most_common top_n (Counter (filtered_tokens self wt text))"
  by (simp add: get_word_frequency_def Let_def dict_of_distinct most_common_distinct
      keys_Counter_distinct)

lemma most_common_counts:
  "map snd (most_common n (Counter ws)) = map (count_list ws) (map fst (most_common n (Counter ws)))"
proof -
  have "snd kv = count_list ws (fst kv)" if "kv \<in> set (most_common n (Counter ws))" for kv
  proof -
    have "(fst kv, snd kv) \<in> set (Counter ws)"
      using that most_common_subset [of n "Counter ws"] by auto
    then show ?thesis by (rule Counter_counts)
  qed
  then show ?thesis by simp
qed

text \<open>
  C6. For every text and every \<open>top_n\<close> the frequency analyzer returns at most
  \<open>top_n\<close> entries (none when \<open>top_n\<close> is not positive). Each entry carries the
  number of occurrences of its word among the filtered tokens, the entries are in
  descending order of that count, and entries of equal count are in the order in which
  their words occur first among the tokens.
\<close>

theorem word_frequency_top_n:
  "length (get_word_frequency self wt text top_n) \<le> nat top_n
   \<and> map snd (get_word_frequency self wt text top_n)
       = map (count_list (filtered_tokens self wt text))
           (map fst (get_word_frequency self wt text top_n))
   \<and> sorted_wrt (\<lambda>a b. snd b < snd a
         \<or> (snd a = snd b
             \<and> first_index (filtered_tokens self wt text) (fst a)
                 < first_index (filtered_tokens self wt text) (fst b)))
       (get_word_frequency self wt text top_n)"
  unfolding get_word_frequency_eq
  using most_common_length most_common_counts most_common_order by blast

section \<open>The orchestrator\<close>

lemma calculate_job_match_returns: "\<exists>res. calculate_job_match self wt r j = Inr res"
  by (cases "job_tokens self wt r j = {}")
    (simp_all add: calculate_job_match_empty calculate_job_match_nonempty)

lemma job_match_of_returns: "\<exists>jm. job_match_of self wt t jd = Inr jm"
proof (cases jd)
  case None
  then show ?thesis by (simp add: job_match_of_def)
next
  case (Some d)
  obtain pct m ms where "calculate_job_match self wt t d = Inr (pct, m, ms)"
    using calculate_job_match_returns [of self wt t d] by (metis prod_cases3)
  then show ?thesis using Some by (simp add: job_match_of_def)
qed

lemma not_space_letters [simp]:
  "\<not> is_space CHR ''e''" "\<not> is_space CHR ''r''" "\<not> is_space CHR ''o''"
  by (simp_all add: is_space_def in_range_def code_def)

lemma word_letters [simp]:
  "is_word CHR ''e''" "is_word CHR ''r''" "is_word CHR ''o''" "\<not> is_word CHR '' ''"
  by (simp_all add: is_word_def is_alpha_def is_ascii_letter_def is_ascii_lower_def
      is_ascii_upper_def is_ascii_digit_def in_range_def code_def)

lemma lower_append: "lower (a @ b) = lower a @ lower b"
  by (simp add: lower_def)

lemma sub_Cls_append:
  "sub (Cls p) repl (a @ b) = sub (Cls p) repl a @ sub (Cls p) repl b"
  by (simp add: sub_Cls)

lemma message_head:
  "sub (Cls not_allowed) '' '' (lower ''Error '') = ''error ''"
  by code_simp

lemma strip_word_prefix:
  assumes "w \<noteq> []" and "\<not> is_space (hd w)" and "\<not> is_space (last w)"
  shows "\<exists>S. strip (w @ CHR '' '' # Y) = w @ S \<and> (S = [] \<or> hd S = CHR '' '')"
proof -
  have d: "dropWhile is_space (w @ CHR '' '' # Y) = w @ CHR '' '' # Y"
    using assms by (cases w) auto
  have r: "dropWhile is_space (rev w) = rev w"
    using assms by (simp add: dropWhile_eq_self_iff hd_rev)
  show ?thesis
  proof (cases "\<forall>x \<in> set (rev Y). is_space x")
    case True
    have "dropWhile is_space (rev Y @ CHR '' '' # rev w) = rev w"
      using True r by (auto simp: dropWhile_append)
    then have "strip (w @ CHR '' '' # Y) = w @ []"
      by (simp add: strip_def d)
    then show ?thesis by blast
  next
    case False
    have "dropWhile is_space (rev Y @ CHR '' '' # rev w)
        = dropWhile is_space (rev Y) @ CHR '' '' # rev w"
      using False by (auto simp: dropWhile_append)
    then have "strip (w @ CHR '' '' # Y) = w @ CHR '' '' # rev (dropWhile is_space (rev Y))"
      by (simp add: strip_def d)
    then show ?thesis by simp
  qed
qed

lemma split_acc_word:
  "list_all (\<lambda>c. \<not> is_space c) w \<Longrightarrow> split_acc cur (w @ S) = split_acc (rev w @ cur) S"
  by (induction w arbitrary: cur) auto

lemma split_word_prefix:
  assumes "w \<noteq> []" and "list_all (\<lambda>c. \<not> is_space c) w"
    and "S = [] \<or> hd S = CHR '' ''"
  shows "\<exists>rest. split (w @ S) = w # rest"
proof -
  have step: "split (w @ S) = split_acc (rev w) S"
    using split_acc_word [OF assms(2), of "[]" S] by (simp add: split_def)
  have "\<exists>rest. split_acc (rev w) S = w # rest"
  proof (cases S)
    case Nil
    then show ?thesis using assms(1) by simp
  next
    case (Cons c S')
    then have "c = CHR '' ''" using assms(3) by simp
    then show ?thesis using assms(1) Cons by simp
  qed
  then show ?thesis by (simp only: step)
qed

lemma clean_text_message:
  "\<exists>S. clean_text (''Error extracting text: '' @ e) = ''error'' @ S
       \<and> (S = [] \<or> hd S = CHR '' '')"
proof -
  let ?Z = "sub (Cls not_allowed) '' '' (lower (''extracting text: '' @ e))"
  have "''Error extracting text: '' @ e = ''Error '' @ (''extracting text: '' @ e)"
    by simp
  then have "sub (Cls not_allowed) '' '' (lower (''Error extracting text: '' @ e))
      = ''error '' @ ?Z"
    by (simp only: lower_append sub_Cls_append message_head)
  then have "clean_text (''Error extracting text: '' @ e) = strip (collapse (''error '' @ ?Z))"
    by (simp only: clean_text_collapse)
  also have "collapse (''error '' @ ?Z) = ''error'' @ CHR '' '' # collapse (dropWhile is_space ?Z)"
    by simp
  finally have c: "clean_text (''Error extracting text: '' @ e)
      = strip (''error'' @ CHR '' '' # collapse (dropWhile is_space ?Z))" .
  show ?thesis
    unfolding c by (rule strip_word_prefix) simp_all
qed

lemma split_clean_text_message:
  "\<exists>rest. split (clean_text (''Error extracting text: '' @ e)) = ''error'' # rest"
proof -
  obtain S where S: "clean_text (''Error extracting text: '' @ e) = ''error'' @ S"
      "S = [] \<or> hd S = CHR '' ''"
    using clean_text_message by blast
  show ?thesis
    unfolding S(1) by (rule split_word_prefix) (use S(2) in simp_all)
qed

lemma join_Cons: "join sep (w # ws) = (if ws = [] then w else w @ sep @ join sep ws)"
  by (cases ws) simp_all

lemma wordcloud_text_message:
  assumes "''error'' \<notin> stop_words self"
    and "wt (clean_text (''Error extracting text: '' @ e)) = None
       \<or> (\<exists>rest. wt (clean_text (''Error extracting text: '' @ e)) = Some (''error'' # rest))"
  shows "\<exists>T. wordcloud_text self wt (''Error extracting text: '' @ e) = ''error'' @ T
       \<and> (T = [] \<or> hd T = CHR '' '')"
proof -
  obtain rest where
    t: "tokens_of wt (clean_text (''Error extracting text: '' @ e)) = ''error'' # rest"
    using assms(2) split_clean_text_message [of e]
    by (auto simp: tokens_of_def)
  let ?P = "\<lambda>word. word \<notin> stop_words self \<and> length word > 2"
  have "wordcloud_text self wt (''Error extracting text: '' @ e)
      = join '' '' (''error'' # filter ?P rest)"
    unfolding wordcloud_text_def Let_def t using assms(1) by simp
  then show ?thesis
    by (intro exI [of _ "if filter ?P rest = [] then [] else '' '' @ join '' '' (filter ?P rest)"])
      (simp only: join_Cons, simp)
qed

lemma ngroups_word_pattern [simp]: "ngroups word_pattern = 0"
  by (simp add: word_pattern_def)

lemma findall_word_prefix:
  assumes "T = [] \<or> hd T = CHR '' ''"
  shows "\<exists>rest. findall word_pattern (''error'' @ T) = ''error'' # rest"
proof -
  let ?q = "\<lambda>c. is_word c \<or> c = CHR 0x27"
  have q: "\<not> ?q CHR '' ''" by simp
  have tw: "takeWhile ?q (''rror'' @ T) = ''rror''"
    using assms q by (cases T) auto
  have dw: "dropWhile ?q (''rror'' @ T) = T"
    using assms q by (cases T) auto
  have "rx_match (Rep ?q 0 None) (''e'', ''rror'' @ T, None)
      = (rev (takeWhile ?q (''rror'' @ T)) @ ''e'', dropWhile ?q (''rror'' @ T), None)
        # map (\<lambda>j. advance j (''e'', ''rror'' @ T, None))
            (rev [0 ..< length (takeWhile ?q (''rror'' @ T))])"
    by (rule rx_match_Rep_None) simp
  then have "\<exists>more. rx_match word_pattern ([], ''error'' @ T, None)
      = (''rorre'', T, None) # more"
    unfolding tw dw by (simp add: word_pattern_def del: rx_match.simps(3))
  then obtain more where
    m: "rx_match word_pattern ([], ''error'' @ T, None) = (''rorre'', T, None) # more"
    by auto
  have "\<exists>rest. findall_from word_pattern [] (''error'' @ T) = (''error'', None) # rest"
    using m by (simp add: matched_def del: rx_match.simps)
  then show ?thesis by (auto simp: findall_def)
qed

lemma cloud_words_message:
  assumes "''error'' \<notin> stopwords" and "T = [] \<or> hd T = CHR '' ''"
  shows "cloud_words stopwords (''error'' @ T) \<noteq> []"
proof -
  obtain rest where f: "findall word_pattern (''error'' @ T) = ''error'' # rest"
    using findall_word_prefix [OF assms(2)] by blast
  have l: "lower ''error'' = ''error''" by code_simp
  have d: "drop_possessive ''error'' = ''error''"
    by (simp add: drop_possessive_def l)
  have n: "\<not> isdigit ''error''"
    by (simp add: isdigit_def is_ascii_digit_def in_range_def code_def)
  show ?thesis
    unfolding cloud_words_def Let_def f using assms(1) by (simp add: d n l)
qed

text \<open>
  The message that stands for the text starts with the word \<^verbatim>\<open>Error\<close>. The lemmas
  above follow it through the stages: the normalizer gives a text that starts with the
  word \<^verbatim>\<open>error\<close>, \<^verbatim>\<open>str.split\<close> gives it as the first token, it is longer than
  two characters, and it is no stopword of the built-in list of the analyzer.
\<close>

lemma fallback_stop_words_keep_error: "''error'' \<notin> stop_words (init None)"
  by (simp add: init_def basic_stopwords_def)

text \<open>
  C9. When text extraction fails with an exception, the orchestrator returns the complete
  analysis record and propagates no exception: the message
  \<^verbatim>\<open>Error extracting text: ...\<close> stands for the text, and the email, phone, skill,
  frequency and word-cloud stages, and the job matcher when a job description is given,
  all run on that message. The word-cloud stage is the one stage that can raise; on the
  message it does not, since the word \<^verbatim>\<open>error\<close> reaches the library. This holds for
  an analyzer whose stop words do not include \<^verbatim>\<open>error\<close> (the built-in list does
  not), for a tokenizer that is unavailable (the \<^verbatim>\<open>str.split\<close> fallback) or keeps
  the first word of the normalized message, and for a library stop-word list without
  \<^verbatim>\<open>error\<close>.
\<close>

theorem analyze_resume_extraction_failure:
  assumes "''error'' \<notin> stop_words self"
    and "wt (clean_text (''Error extracting text: '' @ e)) = None
       \<or> (\<exists>rest. wt (clean_text (''Error extracting text: '' @ e)) = Some (''error'' # rest))"
    and "''error'' \<notin> library_stopwords"
  shows "\<exists>jm. job_match_of self wt (''Error extracting text: '' @ e) job_description = Inr jm
     \<and> analyze_resume self wt (wordcloud_library library_stopwords draw) (Inl e) job_description =
        Inr \<lparr> result_text = ''Error extracting text: '' @ e,
              email = extract_email (''Error extracting text: '' @ e),
              phone = extract_phone (''Error extracting text: '' @ e),
              skills = extract_skills self (''Error extracting text: '' @ e),
              word_frequency = get_word_frequency self wt (''Error extracting text: '' @ e) 20,
              wordcloud = draw (wordcloud_text self wt (''Error extracting text: '' @ e)),
              job_match = jm \<rparr>"
proof -
  obtain jm where jm: "job_match_of self wt (''Error extracting text: '' @ e) job_description = Inr jm"
    using job_match_of_returns by blast
  obtain T where T: "wordcloud_text self wt (''Error extracting text: '' @ e) = ''error'' @ T"
      "T = [] \<or> hd T = CHR '' ''"
    using wordcloud_text_message [of self wt e] assms(1,2) by blast
  have words: "cloud_words library_stopwords
      (wordcloud_text self wt (''Error extracting text: '' @ e)) \<noteq> []"
    unfolding T(1) by (rule cloud_words_message [OF assms(3) T(2)])
  have cloud: "generate_wordcloud self wt (wordcloud_library library_stopwords draw)
      (''Error extracting text: '' @ e)
      = Inr (draw (wordcloud_text self wt (''Error extracting text: '' @ e)))"
    using words by (simp add: generate_wordcloud_def wordcloud_library_def)
  have "extract_text_from_pdf (Inl e) = ''Error extracting text: '' @ e"
    by (simp add: extract_text_from_pdf_def)
  then show ?thesis
    using jm cloud by (simp add: analyze_resume_def Let_def)
qed

section \<open>The matcher and the language of a pattern\<close>

lemma take_takeWhile_all:
  "j \<le> length (takeWhile p r) \<Longrightarrow> list_all p (take j r)"
proof -
  assume j: "j \<le> length (takeWhile p r)"
  have "take j r = take j (takeWhile p r @ dropWhile p r)" by simp
  also have "\<dots> = take j (takeWhile p r)" using j by (simp del: takeWhile_dropWhile_id)
  finally have "set (take j r) \<subseteq> set (takeWhile p r)" by (simp add: set_take_subset)
  then show ?thesis by (auto simp: list_all_iff dest: set_takeWhileD)
qed

lemma all_prefix_takeWhile:
  "list_all p m \<Longrightarrow> length m \<le> length (takeWhile p (m @ r))"
  by (induction m) auto

lemma rx_match_Rep_set:
  "set (rx_match (Rep p lo hi) (l, r, g)) =
     {(rev (take j r) @ l, drop j r, g) | j.
        lo \<le> j \<and> j \<le> length (takeWhile p r) \<and> (case hi of None \<Rightarrow> True | Some h \<Rightarrow> j \<le> h)}"
  by (auto simp: Let_def advance_def split: option.splits)

lemma rx_match_sound:
  "(l', r', g') \<in> set (rx_match e (l, r, g))
     \<Longrightarrow> \<exists>m. r = m @ r' \<and> l' = rev m @ l \<and> lang e l m r'"
proof (induction e arbitrary: l r g l' r' g')
  case (Cls p)
  then show ?case by (cases r) (auto split: if_splits)
next
  case (Lit s)
  then have "take (length s) r = s" and "l' = rev (take (length s) r) @ l"
    and "r' = drop (length s) r"
    by (auto simp: advance_def split: if_splits)
  then show ?case by (metis append_take_drop_id lang.simps(2))
next
  case (Rep p lo hi)
  then obtain j where j: "lo \<le> j" "j \<le> length (takeWhile p r)"
      "case hi of None \<Rightarrow> True | Some h \<Rightarrow> j \<le> h"
    and l': "l' = rev (take j r) @ l" and r': "r' = drop j r"
    unfolding rx_match_Rep_set by auto
  have len: "length (take j r) = j"
    using j(2) length_takeWhile_le [of p r] by simp
  have "lang (Rep p lo hi) l (take j r) r'"
    using j len take_takeWhile_all [OF j(2)] by (auto split: option.splits)
  then show ?case using l' r' by (metis append_take_drop_id)
next
  case (Opt e)
  from Opt.prems have "(l', r', g') \<in> set (rx_match e (l, r, g)) \<or> (l', r', g') = (l, r, g)"
    by auto
  then show ?case
  proof
    assume "(l', r', g') \<in> set (rx_match e (l, r, g))"
    from Opt.IH [OF this] obtain m where "r = m @ r'" "l' = rev m @ l" "lang e l m r'"
      by blast
    then show ?thesis by (intro exI [of _ m]) simp
  next
    assume "(l', r', g') = (l, r, g)"
    then show ?thesis by (intro exI [of _ "[]"]) simp
  qed
next
  case (Grp e)
  then show ?case by auto
next
  case (Cat a b)
  from Cat.prems obtain l1 r1 g1 where
    a: "(l1, r1, g1) \<in> set (rx_match a (l, r, g))"
    and b: "(l', r', g') \<in> set (rx_match b (l1, r1, g1))"
    by auto
  from Cat.IH(1) [OF a] obtain m1 where m1: "r = m1 @ r1" "l1 = rev m1 @ l" "lang a l m1 r1"
    by blast
  from Cat.IH(2) [OF b] obtain m2 where m2: "r1 = m2 @ r'" "l' = rev m2 @ l1" "lang b l1 m2 r'"
    by blast
  have "lang (Cat a b) l (m1 @ m2) r'"
    using m1 m2 by auto
  then show ?case using m1 m2 by (intro exI [of _ "m1 @ m2"]) simp
next
  case WordB
  then show ?case by (auto split: if_splits)
qed

lemma rx_match_complete:
  "lang e l m r' \<Longrightarrow> \<exists>g'. (rev m @ l, r', g') \<in> set (rx_match e (l, m @ r', g))"
proof (induction e arbitrary: l m r' g)
  case (Cls p)
  then show ?case by auto
next
  case (Lit s)
  then show ?case by (auto simp: advance_def)
next
  case (Rep p lo hi)
  then have m: "list_all p m" "lo \<le> length m" "case hi of None \<Rightarrow> True | Some h \<Rightarrow> length m \<le> h"
    by auto
  have "(rev (take (length m) (m @ r')) @ l, drop (length m) (m @ r'), g)
      \<in> set (rx_match (Rep p lo hi) (l, m @ r', g))"
    unfolding rx_match_Rep_set using m all_prefix_takeWhile [OF m(1), of r'] by blast
  then show ?case by auto
next
  case (Opt e)
  from Opt.prems have "m = [] \<or> lang e l m r'" by simp
  then show ?case
  proof
    assume "m = []"
    then show ?thesis by (intro exI [of _ g]) simp
  next
    assume "lang e l m r'"
    from Opt.IH [OF this, of g] obtain g' where
      "(rev m @ l, r', g') \<in> set (rx_match e (l, m @ r', g))" by blast
    then show ?thesis by (intro exI [of _ g']) simp
  qed
next
  case (Grp e)
  then obtain g' where "(rev m @ l, r', g') \<in> set (rx_match e (l, m @ r', g))"
    by fastforce
  then show ?case by force
next
  case (Cat a b)
  then obtain m1 m2 where m: "m = m1 @ m2" and a: "lang a l m1 (m2 @ r')"
    and b: "lang b (rev m1 @ l) m2 r'"
    by auto
  from Cat.IH(1) [OF a, of g] obtain g1 where
    1: "(rev m1 @ l, m2 @ r', g1) \<in> set (rx_match a (l, m1 @ m2 @ r', g))" by blast
  from Cat.IH(2) [OF b, of g1] obtain g2 where
    2: "(rev m2 @ rev m1 @ l, r', g2) \<in> set (rx_match b (rev m1 @ l, m2 @ r', g1))" by blast
  show ?case using 1 2 m by (intro exI [of _ g2]) force
next
  case WordB
  then show ?case by auto
qed

lemma search_from_None:
  "search_from e l r = None \<longleftrightarrow> (\<forall>u v. r = u @ v \<longrightarrow> rx_match e (rev u @ l, v, None) = [])"
proof (induction r arbitrary: l)
  case Nil
  show ?case by (simp split: list.splits)
next
  case (Cons c cs)
  show ?case
  proof (cases "rx_match e (l, c # cs, None)")
    case Nil
    have "(\<forall>u v. c # cs = u @ v \<longrightarrow> rx_match e (rev u @ l, v, None) = [])
        \<longleftrightarrow> (\<forall>u v. cs = u @ v \<longrightarrow> rx_match e (rev u @ c # l, v, None) = [])"
      (is "?A \<longleftrightarrow> ?B")
    proof
      assume a: ?A
      show ?B
      proof (intro allI impI)
        fix u v assume "cs = u @ v"
        then have "c # cs = (c # u) @ v" by simp
        with a have "rx_match e (rev (c # u) @ l, v, None) = []" by blast
        then show "rx_match e (rev u @ c # l, v, None) = []" by simp
      qed
    next
      assume b: ?B
      show ?A
      proof (intro allI impI)
        fix u v assume uv: "c # cs = u @ v"
        show "rx_match e (rev u @ l, v, None) = []"
        proof (cases u)
          case Nil
          then show ?thesis using uv \<open>rx_match e (l, c # cs, None) = []\<close> by simp
        next
          case (Cons a u')
          then have "cs = u' @ v" "a = c" using uv by auto
          with b have "rx_match e (rev u' @ c # l, v, None) = []" by blast
          then show ?thesis using Cons \<open>a = c\<close> by simp
        qed
      qed
    qed
    then show ?thesis using Nil Cons.IH [of "c # l"] by simp
  next
    case (Cons s rest)
    have "\<not> (\<forall>u v. c # cs = u @ v \<longrightarrow> rx_match e (rev u @ l, v, None) = [])"
    proof
      assume "\<forall>u v. c # cs = u @ v \<longrightarrow> rx_match e (rev u @ l, v, None) = []"
      then have "rx_match e (rev [] @ l, c # cs, None) = []" by (metis append_Nil)
      then show False using Cons by simp
    qed
    then show ?thesis using Cons by simp
  qed
qed

lemma search_from_Some:
  "search_from e l r = Some (l0, s) \<Longrightarrow>
     \<exists>u v rest. r = u @ v \<and> l0 = rev u @ l \<and> rx_match e (l0, v, None) = s # rest
       \<and> (\<forall>u' v'. r = u' @ v' \<and> length u' < length u
             \<longrightarrow> rx_match e (rev u' @ l, v', None) = [])"
proof (induction r arbitrary: l)
  case Nil
  then show ?case by (auto split: list.splits)
next
  case (Cons c cs)
  show ?case
  proof (cases "rx_match e (l, c # cs, None)")
    case Nil
    then have "search_from e (c # l) cs = Some (l0, s)" using Cons.prems by simp
    from Cons.IH [OF this] obtain u v rest where
      uv: "cs = u @ v" "l0 = rev u @ c # l" "rx_match e (l0, v, None) = s # rest"
      and before: "\<forall>u' v'. cs = u' @ v' \<and> length u' < length u
             \<longrightarrow> rx_match e (rev u' @ c # l, v', None) = []"
      by blast
    have "\<forall>u' v'. c # cs = u' @ v' \<and> length u' < length (c # u)
             \<longrightarrow> rx_match e (rev u' @ l, v', None) = []"
    proof (intro allI impI)
      fix u' v' assume a: "c # cs = u' @ v' \<and> length u' < length (c # u)"
      show "rx_match e (rev u' @ l, v', None) = []"
      proof (cases u')
        case Nil
        then show ?thesis using a \<open>rx_match e (l, c # cs, None) = []\<close> by simp
      next
        case (Cons a' u'')
        then have "cs = u'' @ v'" "a' = c" "length u'' < length u" using a by auto
        with before have "rx_match e (rev u'' @ c # l, v', None) = []" by blast
        then show ?thesis using Cons \<open>a' = c\<close> by simp
      qed
    qed
    then show ?thesis
      using uv by (intro exI [of _ "c # u"] exI [of _ v] exI [of _ rest]) simp
  next
    case (Cons s' rest)
    then have "l0 = l" "s = s'" using Cons.prems by auto
    then show ?thesis
      using Cons by (intro exI [of _ "[]"] exI [of _ "c # cs"] exI [of _ rest]) simp
  qed
qed

lemma findall_from_head:
  "(case findall_from e l r of [] \<Rightarrow> None | x # _ \<Rightarrow> Some x) =
   (case search_from e l r of
      None \<Rightarrow> None
    | Some (l0, (l', r', g)) \<Rightarrow> Some (matched l0 l', g))"
proof (induction r arbitrary: l)
  case Nil
  show ?case by (simp split: list.splits)
next
  case (Cons c cs)
  show ?case
  proof (cases "rx_match e (l, c # cs, None)")
    case Nil
    then show ?thesis using Cons.IH [of "c # l"] by simp
  next
    case (Cons s rest)
    then show ?thesis by (simp split: prod.splits)
  qed
qed

lemma matched_append [simp]: "matched l (rev m @ l) = m"
  by (simp add: matched_def)

lemma search_from_first:
  assumes "search_from e [] t = Some (l0, (l', r', g))"
  shows "\<exists>u m. t = u @ m @ r' \<and> l0 = rev u \<and> matched l0 l' = m \<and> lang e (rev u) m r'
    \<and> (\<forall>pre' m' post'. t = pre' @ m' @ post' \<and> lang e (rev pre') m' post'
          \<longrightarrow> length u \<le> length pre')"
proof -
  from search_from_Some [OF assms] obtain u v rest where
    uv: "t = u @ v" "l0 = rev u" "rx_match e (l0, v, None) = (l', r', g) # rest"
    and before: "\<forall>u' v'. t = u' @ v' \<and> length u' < length u
             \<longrightarrow> rx_match e (rev u' @ [], v', None) = []"
    by auto
  have "(l', r', g) \<in> set (rx_match e (rev u, v, None))"
    using uv by simp
  from rx_match_sound [OF this] obtain m where
    m: "v = m @ r'" "l' = rev m @ rev u" "lang e (rev u) m r'" by blast
  have least: "length u \<le> length pre'"
    if a: "t = pre' @ m' @ post'" and b: "lang e (rev pre') m' post'" for pre' m' post'
  proof (rule ccontr)
    assume "\<not> length u \<le> length pre'"
    then have "rx_match e (rev pre', m' @ post', None) = []"
      using before a by simp
    moreover obtain g' where
      "(rev m' @ rev pre', post', g') \<in> set (rx_match e (rev pre', m' @ post', None))"
      using rx_match_complete [OF b] by blast
    ultimately show False by simp
  qed
  show ?thesis
    using uv m least by (intro exI [of _ u] exI [of _ m]) auto
qed

lemma search_from_exists:
  assumes "t = pre @ m @ post" and "lang e (rev pre) m post"
  shows "search_from e [] t \<noteq> None"
proof
  assume "search_from e [] t = None"
  then have "rx_match e (rev pre @ [], m @ post, None) = []"
    using assms(1) unfolding search_from_None by blast
  moreover obtain g' where
    "(rev m @ rev pre, post, g') \<in> set (rx_match e (rev pre, m @ post, None))"
    using rx_match_complete [OF assms(2)] by blast
  ultimately show False by simp
qed

section \<open>The email extractor\<close>

lemma lang_CatI:
  assumes "lang a l m1 (m2 @ r)" and "lang b (rev m1 @ l) m2 r"
  shows "lang (Cat a b) l (m1 @ m2) r"
  using assms by auto

lemma lang_email_patternD:
  assumes "lang email_pattern l m r"
  shows "\<exists>loc dom tld. m = loc @ ''@'' @ dom @ ''.'' @ tld
        \<and> loc \<noteq> [] \<and> list_all local_char loc
        \<and> dom \<noteq> [] \<and> list_all domain_char dom
        \<and> 2 \<le> length tld \<and> list_all tld_char tld"
    and "at_boundary l (m @ r)" and "at_boundary (rev m @ l) r"
  using assms by (auto simp: email_pattern_def Suc_le_eq)

lemma lang_email_patternI:
  assumes m: "m = loc @ ''@'' @ dmn @ ''.'' @ tld"
    and loc: "loc \<noteq> []" "list_all local_char loc"
    and dmn: "dmn \<noteq> []" "list_all domain_char dmn"
    and tld: "2 \<le> length tld" "list_all tld_char tld"
    and b1: "at_boundary l (m @ r)" and b2: "at_boundary (rev m @ l) r"
  shows "lang email_pattern l m r"
proof -
  let ?l1 = "rev loc @ l"
  let ?l2 = "rev ''@'' @ ?l1"
  let ?l3 = "rev dmn @ ?l2"
  let ?l4 = "rev ''.'' @ ?l3"
  have 6: "lang (Cat (Rep tld_char 2 None) WordB) ?l4 tld r"
    using lang_CatI [of "Rep tld_char 2 None" ?l4 tld "[]" r WordB] tld b2 m
    by (simp del: lang.simps(6))
  have 5: "lang (Cat (Lit ''.'') (Cat (Rep tld_char 2 None) WordB)) ?l3 (''.'' @ tld) r"
    by (rule lang_CatI [OF _ 6]) simp
  have 4: "lang (Cat (Rep domain_char 1 None) (Cat (Lit ''.'') (Cat (Rep tld_char 2 None) WordB)))
      ?l2 (dmn @ ''.'' @ tld) r"
    by (rule lang_CatI [OF _ 5]) (use dmn in \<open>simp add: Suc_le_eq\<close>)
  have 3: "lang (Cat (Lit ''@'') (Cat (Rep domain_char 1 None)
      (Cat (Lit ''.'') (Cat (Rep tld_char 2 None) WordB)))) ?l1 (''@'' @ dmn @ ''.'' @ tld) r"
    by (rule lang_CatI [OF _ 4]) simp
  have 2: "lang (Cat (Rep local_char 1 None) (Cat (Lit ''@'') (Cat (Rep domain_char 1 None)
      (Cat (Lit ''.'') (Cat (Rep tld_char 2 None) WordB))))) l (loc @ ''@'' @ dmn @ ''.'' @ tld) r"
    by (rule lang_CatI [OF _ 3]) (use loc in \<open>simp add: Suc_le_eq\<close>)
  have 1: "lang (Cat WordB (Cat (Rep local_char 1 None) (Cat (Lit ''@'')
      (Cat (Rep domain_char 1 None) (Cat (Lit ''.'') (Cat (Rep tld_char 2 None) WordB))))))
      l (loc @ ''@'' @ dmn @ ''.'' @ tld) r"
    using lang_CatI [of WordB l "[]" "loc @ ''@'' @ dmn @ ''.'' @ tld" r
        "Cat (Rep local_char 1 None) (Cat (Lit ''@'') (Cat (Rep domain_char 1 None)
           (Cat (Lit ''.'') (Cat (Rep tld_char 2 None) WordB))))"] 2 b1 m
    by (simp del: lang.simps(6))
  then show ?thesis using m by (simp add: email_pattern_def del: lang.simps(6))
qed

lemma ngroups_email_pattern [simp]: "ngroups email_pattern = 0"
  by (simp add: email_pattern_def)

lemma extract_email_search:
  "extract_email text =
     (case search_from email_pattern [] text of
        None \<Rightarrow> ''Not found''
      | Some (l0, (l', r', g)) \<Rightarrow> matched l0 l')"
  using findall_from_head [of email_pattern "[]" "text"]
  by (auto simp: extract_email_def findall_def Let_def split: list.splits option.splits)

lemma tld_letters:
  "CHR ''|'' \<notin> set tld \<Longrightarrow> list_all tld_char tld \<longleftrightarrow> list_all is_ascii_letter tld"
  by (auto simp: list_all_iff tld_char_def is_ascii_letter_def)

lemma lang_email_at:
  assumes "CHR ''|'' \<notin> set m"
  shows "lang email_pattern (rev pre) m post \<longleftrightarrow> email_at pre m post"
proof
  assume l: "lang email_pattern (rev pre) m post"
  from lang_email_patternD(1) [OF l] obtain loc dmn tld where
    m: "m = loc @ ''@'' @ dmn @ ''.'' @ tld" "loc \<noteq> []" "list_all local_char loc"
      "dmn \<noteq> []" "list_all domain_char dmn" "2 \<le> length tld" "list_all tld_char tld"
    by blast
  have "CHR ''|'' \<notin> set tld" using assms m(1) by simp
  then have "list_all is_ascii_letter tld" using m(7) by (simp add: tld_letters)
  then have "spec_email m" unfolding spec_email_def using m by blast
  then show "email_at pre m post"
    using lang_email_patternD(2,3) [OF l] by (simp add: email_at_def)
next
  assume e: "email_at pre m post"
  then obtain loc dmn tld where
    m: "m = loc @ ''@'' @ dmn @ ''.'' @ tld" "loc \<noteq> []" "list_all local_char loc"
      "dmn \<noteq> []" "list_all domain_char dmn" "2 \<le> length tld" "list_all is_ascii_letter tld"
    unfolding email_at_def spec_email_def by blast
  have "list_all tld_char tld"
    using m(7) by (auto simp: list_all_iff tld_char_def is_ascii_letter_def)
  then show "lang email_pattern (rev pre) m post"
    using m e by (intro lang_email_patternI [of m loc dmn tld]) (simp_all add: email_at_def)
qed

lemma extract_email_no_at:
  assumes "CHR ''@'' \<notin> set text"
  shows "extract_email text = ''Not found''"
proof -
  have "search_from email_pattern [] text = None"
    unfolding search_from_None
  proof (intro allI impI)
    fix u v assume uv: "text = u @ v"
    show "rx_match email_pattern (rev u @ [], v, None) = []"
    proof (rule ccontr)
      assume "rx_match email_pattern (rev u @ [], v, None) \<noteq> []"
      then obtain l' r' g' where "(l', r', g') \<in> set (rx_match email_pattern (rev u, v, None))"
        by (cases "rx_match email_pattern (rev u, v, None)") auto
      from rx_match_sound [OF this] obtain m where
        m: "v = m @ r'" "lang email_pattern (rev u) m r'" by blast
      from lang_email_patternD(1) [OF m(2)] have "CHR ''@'' \<in> set m" by auto
      then show False using assms uv m(1) by simp
    qed
  qed
  then show ?thesis by (simp add: extract_email_search)
qed

lemma extract_email_found:
  assumes bar: "CHR ''|'' \<notin> set text"
    and ex: "text = pre0 @ m0 @ post0" "email_at pre0 m0 post0"
  shows "\<exists>pre m post. text = pre @ m @ post \<and> email_at pre m post \<and> extract_email text = m
    \<and> (\<forall>pre' m' post'. text = pre' @ m' @ post' \<and> email_at pre' m' post'
          \<longrightarrow> length pre \<le> length pre')"
proof -
  have "CHR ''|'' \<notin> set m0" using bar ex(1) by simp
  then have "lang email_pattern (rev pre0) m0 post0"
    using ex(2) by (simp add: lang_email_at)
  from search_from_exists [OF ex(1) this] obtain l0 l' r' g where
    s: "search_from email_pattern [] text = Some (l0, (l', r', g))"
    by (cases "search_from email_pattern [] text") auto
  from search_from_first [OF s] obtain u m where
    um: "text = u @ m @ r'" "l0 = rev u" "matched l0 l' = m" "lang email_pattern (rev u) m r'"
    and least: "\<forall>pre' m' post'. text = pre' @ m' @ post' \<and> lang email_pattern (rev pre') m' post'
          \<longrightarrow> length u \<le> length pre'"
    by blast
  have "CHR ''|'' \<notin> set m" using bar um(1) by simp
  then have at: "email_at u m r'" using um(4) by (simp add: lang_email_at)
  have val: "extract_email text = m"
    using s um(3) by (simp add: extract_email_search)
  have "length u \<le> length pre'"
    if a: "text = pre' @ m' @ post'" and b: "email_at pre' m' post'" for pre' m' post'
  proof -
    have "CHR ''|'' \<notin> set m'" using bar a by simp
    then have "lang email_pattern (rev pre') m' post'" using b by (simp add: lang_email_at)
    then show ?thesis using least a by blast
  qed
  then have least': "\<forall>pre' m' post'. text = pre' @ m' @ post' \<and> email_at pre' m' post'
          \<longrightarrow> length u \<le> length pre'"
    by blast
  have res: "text = u @ m @ r' \<and> email_at u m r' \<and> extract_email text = m
    \<and> (\<forall>pre' m' post'. text = pre' @ m' @ post' \<and> email_at pre' m' post'
          \<longrightarrow> length u \<le> length pre')"
    using um(1) at val least' by (intro conjI)
  show ?thesis by (rule exI [of _ u], rule exI [of _ m], rule exI [of _ r'], rule res)
qed

lemma extract_email_not_found:
  assumes bar: "CHR ''|'' \<notin> set text"
    and none: "\<not> (\<exists>pre m post. text = pre @ m @ post \<and> email_at pre m post)"
  shows "extract_email text = ''Not found''"
proof (cases "search_from email_pattern [] text")
  case None
  then show ?thesis by (simp add: extract_email_search)
next
  case (Some x)
  obtain l0 l' r' g where "x = (l0, (l', r', g))" by (metis prod_cases4)
  with Some have s: "search_from email_pattern [] text = Some (l0, (l', r', g))" by simp
  from search_from_first [OF s] obtain u m where
    um: "text = u @ m @ r'" "lang email_pattern (rev u) m r'" by blast
  have "CHR ''|'' \<notin> set m" using bar um(1) by simp
  then have "email_at u m r'" using um(2) by (simp add: lang_email_at)
  then show ?thesis using none um(1) by blast
qed

text \<open>
  C2, with the word boundaries of the pattern. On a text without an at sign the email
  extractor returns \<^verbatim>\<open>Not found\<close>. On a text without a vertical bar it returns a substring that has the
  shape local@domain.tld and stands between two word boundaries, taken at the leftmost
  position where such a substring starts, and \<^verbatim>\<open>Not found\<close> when there is no such
  substring. On the text
  \<^verbatim>\<open>contact me at a.b@example.com or c@d.org\<close> it returns \<^verbatim>\<open>a.b@example.com\<close>.
\<close>

theorem extract_email_first_match:
  "(CHR ''@'' \<notin> set text \<longrightarrow> extract_email text = ''Not found'')
   \<and> (CHR ''|'' \<notin> set text \<longrightarrow>
        (if \<exists>pre m post. text = pre @ m @ post \<and> email_at pre m post
         then \<exists>pre m post. text = pre @ m @ post \<and> email_at pre m post
                \<and> extract_email text = m
                \<and> (\<forall>pre' m' post'. text = pre' @ m' @ post' \<and> email_at pre' m' post'
                      \<longrightarrow> length pre \<le> length pre')
         else extract_email text = ''Not found''))
   \<and> extract_email ''contact me at a.b@example.com or c@d.org'' = ''a.b@example.com''"
proof (intro conjI impI)
  assume "CHR ''@'' \<notin> set text"
  then show "extract_email text = ''Not found''" by (rule extract_email_no_at)
next
  assume bar: "CHR ''|'' \<notin> set text"
  show "if \<exists>pre m post. text = pre @ m @ post \<and> email_at pre m post
         then \<exists>pre m post. text = pre @ m @ post \<and> email_at pre m post
                \<and> extract_email text = m
                \<and> (\<forall>pre' m' post'. text = pre' @ m' @ post' \<and> email_at pre' m' post'
                      \<longrightarrow> length pre \<le> length pre')
         else extract_email text = ''Not found''"
  proof (cases "\<exists>pre m post. text = pre @ m @ post \<and> email_at pre m post")
    case True
    then obtain pre0 m0 post0 where "text = pre0 @ m0 @ post0" "email_at pre0 m0 post0"
      by blast
    from extract_email_found [OF bar this] show ?thesis by (simp only: True if_True)
  next
    case False
    from extract_email_not_found [OF bar False] show ?thesis by (simp only: False if_False)
  qed
next
  show "extract_email ''contact me at a.b@example.com or c@d.org'' = ''a.b@example.com''"
    by code_simp
qed

section \<open>The skill matcher\<close>

lemma dict_set_values:
  "(k', v') \<in> set (dict_set d k v) \<Longrightarrow> v' = v \<or> (k', v') \<in> set d"
  by (induction d) (auto split: if_splits)

lemma extract_skills_fold_sound:
  assumes "\<forall>kv \<in> set acc. \<forall>sk \<in> set (snd kv). P sk"
  shows "\<forall>kv \<in> set
      (foldl (\<lambda>found_skills (category, skills).
                  if filter P skills \<noteq> [] then dict_set found_skills category (filter P skills)
                  else found_skills) acc table). \<forall>sk \<in> set (snd kv). P sk"
  using assms
proof (induction table arbitrary: acc)
  case Nil
  then show ?case by simp
next
  case (Cons entry table)
  obtain category skills where entry: "entry = (category, skills)" by (cases entry)
  define acc' where "acc' =
    (if filter P skills \<noteq> [] then dict_set acc category (filter P skills) else acc)"
  have inv: "\<forall>kv \<in> set acc'. \<forall>sk \<in> set (snd kv). P sk"
  proof (intro ballI)
    fix kv sk assume kv: "kv \<in> set acc'" and sk: "sk \<in> set (snd kv)"
    have "(fst kv, snd kv) \<in> set (dict_set acc category (filter P skills)) \<or> kv \<in> set acc"
      using kv by (simp add: acc'_def split: if_splits)
    then have "snd kv = filter P skills \<or> kv \<in> set acc"
      using dict_set_values [of "fst kv" "snd kv" acc category "filter P skills"] by auto
    then show "P sk"
    proof
      assume "snd kv = filter P skills"
      then show ?thesis using sk by simp
    next
      assume "kv \<in> set acc"
      then show ?thesis using sk Cons.prems by blast
    qed
  qed
  have step: "foldl (\<lambda>found_skills (category, skills).
                  if filter P skills \<noteq> [] then dict_set found_skills category (filter P skills)
                  else found_skills) acc (entry # table)
    = foldl (\<lambda>found_skills (category, skills).
                  if filter P skills \<noteq> [] then dict_set found_skills category (filter P skills)
                  else found_skills) acc' table"
    unfolding entry acc'_def by simp
  show ?case unfolding step by (rule Cons.IH [OF inv])
qed

lemma extract_skills_sound:
  assumes "sk \<in> set (concat (map snd (extract_skills self text)))"
  shows "search (skill_pattern sk) (lower text)"
proof -
  have "\<forall>kv \<in> set (extract_skills self text). \<forall>s \<in> set (snd kv).
      search (skill_pattern s) (lower text)"
    unfolding extract_skills_def Let_def
    by (rule extract_skills_fold_sound) simp
  then show ?thesis using assms by auto
qed

text \<open>
  What the pattern of a term accepts: an occurrence of the term with a word boundary
  before it and a word boundary after it. For a term that ends with a character that is
  no word character, the second boundary asks for a word character after the term.
\<close>

lemma lang_skill_pattern:
  "lang (skill_pattern sk) l m r \<longleftrightarrow>
     m = sk \<and> at_boundary l (sk @ r) \<and> at_boundary (rev sk @ l) r"
  by (auto simp: skill_pattern_def)

lemma search_iff_lang:
  "search e t \<longleftrightarrow> (\<exists>pre m post. t = pre @ m @ post \<and> lang e (rev pre) m post)"
proof
  assume "search e t"
  then obtain l0 l' r' g where "search_from e [] t = Some (l0, (l', r', g))"
    unfolding search_def by (cases "search_from e [] t") auto
  from search_from_first [OF this] show "\<exists>pre m post. t = pre @ m @ post \<and> lang e (rev pre) m post"
    by blast
next
  assume "\<exists>pre m post. t = pre @ m @ post \<and> lang e (rev pre) m post"
  then obtain pre m post where "t = pre @ m @ post" "lang e (rev pre) m post" by blast
  from search_from_exists [OF this] show "search e t" by (simp add: search_def)
qed

lemma search_skill_pattern:
  "search (skill_pattern sk) t \<longleftrightarrow>
     (\<exists>pre post. t = pre @ sk @ post
        \<and> at_boundary (rev pre) (sk @ post) \<and> at_boundary (rev sk @ rev pre) post)"
  unfolding search_iff_lang lang_skill_pattern by auto

lemma skill_pattern_examples:
  "\<not> search (skill_pattern ''python'') (lower ''Pythonic'')"
  "search (skill_pattern ''python'') (lower ''I use Python daily'')"
  "search (skill_pattern ''c++'') (lower ''C++x'')"
  by code_simp+

text \<open>
  C3. The claim asks that a term be reported exactly when it occurs as a whole word. On
  the text \<^verbatim>\<open>I use C++ daily\<close> the term \<^verbatim>\<open>c++\<close> occurs as a whole word, and the
  matcher reports it in no category: the pattern ends with a word-boundary assertion,
  which fails between a plus sign and a space.
\<close>

theorem extract_skills_misses_cpp:
  "''c++'' \<notin> set (concat (map snd (extract_skills (init None) ''I use C++ daily'')))"
proof
  assume "''c++'' \<in> set (concat (map snd (extract_skills (init None) ''I use C++ daily'')))"
  then have "search (skill_pattern ''c++'') (lower ''I use C++ daily'')"
    by (rule extract_skills_sound)
  moreover have "\<not> search (skill_pattern ''c++'') (lower ''I use C++ daily'')"
    by code_simp
  ultimately show False by simp
qed

section \<open>The phone extractor\<close>

text \<open>
  C1. The claim asks for the first substring that matches the phone pattern. On the text
  \<^verbatim>\<open>555-123-4567\<close> the pattern matches the whole text, and the extractor returns the
  empty string: the pattern has a capturing group around the optional country code, so
  \<^verbatim>\<open>re.findall\<close> yields the content of that group in place of the match. On
  \<^verbatim>\<open>call +1 555-123-4567\<close> it returns the prefix \<^verbatim>\<open>+1 \<close> alone.
\<close>

theorem extract_phone_returns_group:
  "findall_from phone_pattern [] ''555-123-4567'' = [(''555-123-4567'', None)]
   \<and> extract_phone ''555-123-4567'' = []
   \<and> extract_phone ''call +1 555-123-4567'' = ''+1 ''"
  by code_simp

section \<open>Worked examples\<close>

theorem job_match_empty_resume_witness:
  "resume_tokens (init None) (\<lambda>_. None) [] ''sql dev'' = {}
   \<and> job_tokens (init None) (\<lambda>_. None) [] ''sql dev'' \<noteq> {}
   \<and> calculate_job_match (init None) (\<lambda>_. None) [] ''sql dev''
       = Inr (0, {}, {''sql'', ''dev''})"
proof -
  have r: "resume_tokens (init None) (\<lambda>_. None) [] ''sql dev'' = {}"
    by code_simp
  have j: "job_tokens (init None) (\<lambda>_. None) [] ''sql dev'' = {''sql'', ''dev''}"
    by code_simp
  have n: "job_tokens (init None) (\<lambda>_. None) [] ''sql dev'' \<noteq> {}"
    unfolding j by simp
  show ?thesis
    using job_match_empty_resume [OF r n] r n j by simp
qed

theorem job_match_percentage_witness:
  "(\<exists>matching missing.
      calculate_job_match (init None) (\<lambda>_. None) ''sql dev'' ''dev sql''
        = Inr (100, matching, missing))
   \<and> (job_tokens (init None) (\<lambda>_. None) ''sql'' ''of'' = {}
        \<and> calculate_job_match (init None) (\<lambda>_. None) ''sql'' ''of'' = Inr (0, {}, {}))
   \<and> (\<exists>matching missing.
        calculate_job_match (init None) (\<lambda>_. None) ''sql'' ''dev''
          = Inr (0, matching, missing))"
proof -
  have full: "job_tokens (init None) (\<lambda>_. None) ''sql dev'' ''dev sql'' \<noteq> {}
      \<and> job_tokens (init None) (\<lambda>_. None) ''sql dev'' ''dev sql''
          \<subseteq> resume_tokens (init None) (\<lambda>_. None) ''sql dev'' ''dev sql''"
    by code_simp
  have none: "job_tokens (init None) (\<lambda>_. None) ''sql'' ''of'' = {}"
    by code_simp
  have disjoint: "resume_tokens (init None) (\<lambda>_. None) ''sql'' ''dev''
      \<inter> job_tokens (init None) (\<lambda>_. None) ''sql'' ''dev'' = {}"
    by code_simp
  have a: "\<exists>matching missing.
      calculate_job_match (init None) (\<lambda>_. None) ''sql dev'' ''dev sql''
        = Inr (100, matching, missing)"
    using job_match_percentage [of "init None" "\<lambda>_. None" "''sql dev''" "''dev sql''"] full
    by auto
  have b: "calculate_job_match (init None) (\<lambda>_. None) ''sql'' ''of'' = Inr (0, {}, {})"
    using job_match_percentage [of "init None" "\<lambda>_. None" "''sql''" "''of''"] none
    by auto
  have c: "\<exists>matching missing.
      calculate_job_match (init None) (\<lambda>_. None) ''sql'' ''dev'' = Inr (0, matching, missing)"
    using job_match_percentage [of "init None" "\<lambda>_. None" "''sql''" "''dev''"] disjoint
    by auto
  show ?thesis using a b c none by blast
qed

lemma spec_email_example: "spec_email ''a@b.cd''"
  unfolding spec_email_def
  by (rule exI [of _ "''a''"], rule exI [of _ "''b''"], rule exI [of _ "''cd''"])
    (simp add: local_char_def domain_char_def is_ascii_letter_def is_ascii_lower_def
      in_range_def code_def)

text \<open>
  C2 as stated fails: the text \<^verbatim>\<open>a@b.cd1\<close> has the substring \<^verbatim>\<open>a@b.cd\<close> of the
  shape local@domain.tld, and the extractor returns \<^verbatim>\<open>Not found\<close>, because the pattern
  asks for a word boundary after the last letter.
\<close>

theorem extract_email_counterexample:
  "spec_email ''a@b.cd'' \<and> ''a@b.cd1'' = [] @ ''a@b.cd'' @ ''1''
   \<and> extract_email ''a@b.cd1'' = ''Not found''"
proof -
  have "extract_email ''a@b.cd1'' = ''Not found''" by code_simp
  then show ?thesis using spec_email_example by simp
qed

theorem extract_email_first_match_witness:
  "CHR ''@'' \<notin> set ''no mail'' \<and> extract_email ''no mail'' = ''Not found''
   \<and> CHR ''|'' \<notin> set ''x a@b.cd!''
   \<and> email_at ''x '' ''a@b.cd'' ''!''
   \<and> (\<exists>pre m post. ''x a@b.cd!'' = pre @ m @ post \<and> email_at pre m post
          \<and> extract_email ''x a@b.cd!'' = m)"
proof -
  have 1: "CHR ''@'' \<notin> set ''no mail''" by simp
  have 2: "CHR ''|'' \<notin> set ''x a@b.cd!''" by simp
  have 3: "email_at ''x '' ''a@b.cd'' ''!''"
    using spec_email_example
    by (simp add: email_at_def at_boundary_def is_word_def is_alpha_def is_ascii_letter_def
        is_ascii_lower_def is_ascii_upper_def is_ascii_digit_def in_range_def code_def)
  have 4: "\<exists>pre m post. ''x a@b.cd!'' = pre @ m @ post \<and> email_at pre m post"
    by (rule exI [of _ "''x ''"], rule exI [of _ "''a@b.cd''"], rule exI [of _ "''!''"])
      (simp add: 3)
  have "extract_email ''no mail'' = ''Not found''"
    using extract_email_first_match [of "''no mail''"] 1 by blast
  moreover have "\<exists>pre m post. ''x a@b.cd!'' = pre @ m @ post \<and> email_at pre m post
          \<and> extract_email ''x a@b.cd!'' = m"
    using extract_email_first_match [of "''x a@b.cd!''"] 2 4 by (simp only: if_True) blast
  ultimately show ?thesis using 1 2 3 by blast
qed

theorem analyze_resume_extraction_failure_witness:
  "''error'' \<notin> stop_words (init None)
   \<and> ''error'' \<notin> ({} :: string set)
   \<and> analyze_resume (init None) (\<lambda>_. None) (wordcloud_library {} (\<lambda>s. s)) (Inl ''bad'') None =
        Inr \<lparr> result_text = ''Error extracting text: bad'',
              email = extract_email ''Error extracting text: bad'',
              phone = extract_phone ''Error extracting text: bad'',
              skills = extract_skills (init None) ''Error extracting text: bad'',
              word_frequency =
                get_word_frequency (init None) (\<lambda>_. None) ''Error extracting text: bad'' 20,
              wordcloud = ''error extracting text bad'',
              job_match = None \<rparr>"
proof -
  have 1: "''error'' \<notin> stop_words (init None)" by (rule fallback_stop_words_keep_error)
  have 3: "''error'' \<notin> ({} :: string set)" by simp
  obtain jm where
    jm: "job_match_of (init None) (\<lambda>_. None) (''Error extracting text: '' @ ''bad'') None = Inr jm"
    and r: "analyze_resume (init None) (\<lambda>_. None) (wordcloud_library {} (\<lambda>s. s)) (Inl ''bad'') None =
        Inr \<lparr> result_text = ''Error extracting text: '' @ ''bad'',
              email = extract_email (''Error extracting text: '' @ ''bad''),
              phone = extract_phone (''Error extracting text: '' @ ''bad''),
              skills = extract_skills (init None) (''Error extracting text: '' @ ''bad''),
              word_frequency =
                get_word_frequency (init None) (\<lambda>_. None) (''Error extracting text: '' @ ''bad'') 20,
              wordcloud = wordcloud_text (init None) (\<lambda>_. None) (''Error extracting text: '' @ ''bad''),
              job_match = jm \<rparr>"
    using analyze_resume_extraction_failure
      [of "init None" "\<lambda>_. None" "''bad''" "{}" None "\<lambda>s. s", OF 1 _ 3]
    by auto
  have jm': "jm = None" using jm by (simp add: job_match_of_def)
  have w: "wordcloud_text (init None) (\<lambda>_. None) ''Error extracting text: bad''
      = ''error extracting text bad''" by code_simp
  show ?thesis using 1 r jm' w by simp
qed

end
